theory Spec2Isabelle
  imports Main "HOL-Library.AList"
begin

section \<open>Strings\<close>

text \<open>
  A JavaScript string is a sequence of UTF-16 code units. A code unit is modelled as a
  natural number (the program only ever sees values below 65536; the functions below treat
  any larger number like every other unit that is neither white space, a hexadecimal digit
  nor a separator). Literals of the source are written with \<open>lit\<close>.
\<close>

type_synonym jschar = nat
type_synonym jsstring = "jschar list"

definition lit :: "string \<Rightarrow> jsstring" where
  "lit s = map of_char s"

text \<open>
  The units that \<^verbatim>\<open>String.prototype.trim\<close> strips and that \<^verbatim>\<open>\s\<close> matches:
  WhiteSpace (TAB, VT, FF, SP, NBSP, ZWNBSP and the category Zs) and LineTerminator
  (LF, CR, LS, PS).
\<close>

definition isWhitespace :: "jschar \<Rightarrow> bool" where
  "isWhitespace c \<longleftrightarrow>
     c = 9 \<or> c = 10 \<or> c = 11 \<or> c = 12 \<or> c = 13 \<or> c = 32 \<or> c = 160 \<or> c = 5760 \<or>
     (8192 \<le> c \<and> c \<le> 8202) \<or> c = 8232 \<or> c = 8233 \<or> c = 8239 \<or> c = 8287 \<or>
     c = 12288 \<or> c = 65279"

definition trim :: "jsstring \<Rightarrow> jsstring" where
  "trim s = rev (dropWhile isWhitespace (rev (dropWhile isWhitespace s)))"

text \<open>
  \<^verbatim>\<open>toLowerCase\<close> on the ASCII letters. The parser applies it only to strings that passed
  \<^verbatim>\<open>isValidHash\<close> (digits and the letters a-f, A-F), where JavaScript's full Unicode
  mapping coincides with this one.
\<close>

definition toLowerCase :: "jsstring \<Rightarrow> jsstring" where
  "toLowerCase s = map (\<lambda>c. if 65 \<le> c \<and> c \<le> 90 then c + 32 else c) s"

text \<open>\<^verbatim>\<open>s.split(sep)\<close> for a separator of one unit: the empty string gives one empty piece.\<close>

fun split :: "jschar \<Rightarrow> jsstring \<Rightarrow> jsstring list" where
  "split sep [] = [[]]"
| "split sep (c # cs) =
     (if c = sep then [] # split sep cs
      else (case split sep cs of
              [] \<Rightarrow> [[c]]
            | p # ps \<Rightarrow> (c # p) # ps))"

text \<open>\<^verbatim>\<open>parts.join(sep)\<close> for a separator of one unit.\<close>

fun join :: "jschar \<Rightarrow> jsstring list \<Rightarrow> jsstring" where
  "join sep [] = []"
| "join sep [p] = p"
| "join sep (p # q # ps) = p @ sep # join sep (q # ps)"

text \<open>
  \<^verbatim>\<open>s.split(/\s+/).filter((h) => h.length > 0)\<close>: the maximal runs of units that are not
  white space (the regular-expression split yields an empty piece only at a leading or
  trailing run of white space, and the filter drops it).
\<close>

fun splitWs :: "jsstring \<Rightarrow> jsstring \<Rightarrow> jsstring list" where
  "splitWs acc [] = (if acc = [] then [] else [rev acc])"
| "splitWs acc (c # cs) =
     (if isWhitespace c then (if acc = [] then splitWs [] cs else rev acc # splitWs [] cs)
      else splitWs (c # acc) cs)"

text \<open>Number to string, for the non-negative integers the program prints.\<close>

definition digit :: "nat \<Rightarrow> jschar" where
  "digit d = 48 + d"

fun dec :: "nat \<Rightarrow> jsstring" where
  "dec n = (if n < 10 then [digit n] else dec (n div 10) @ [digit (n mod 10)])"

declare dec.simps [simp del]

section \<open>Commit hashes (types.ts)\<close>

definition isHexLower :: "jschar \<Rightarrow> bool" where
  "isHexLower c \<longleftrightarrow> (48 \<le> c \<and> c \<le> 57) \<or> (97 \<le> c \<and> c \<le> 102)"

definition isHexAnyCase :: "jschar \<Rightarrow> bool" where
  "isHexAnyCase c \<longleftrightarrow> isHexLower c \<or> (65 \<le> c \<and> c \<le> 70)"

text \<open>\<^verbatim>\<open>isCommitHash\<close>: \<^verbatim>\<open>/^[a-f0-9]{40}$/.test(value)\<close>.\<close>

definition isCommitHash :: "jsstring \<Rightarrow> bool" where
  "isCommitHash v \<longleftrightarrow> length v = 40 \<and> list_all isHexLower v"

text \<open>\<^verbatim>\<open>unsafeCommitHash\<close>: \<^verbatim>\<open>value.trim().toLowerCase()\<close>, no validation.\<close>

definition unsafeCommitHash :: "jsstring \<Rightarrow> jsstring" where
  "unsafeCommitHash v = toLowerCase (trim v)"

section \<open>Commit parsing (parser.ts)\<close>

definition FIELD_SEPARATOR :: jschar where
  "FIELD_SEPARATOR = 0"

definition RECORD_SEPARATOR :: jschar where
  "RECORD_SEPARATOR = 1"

definition EXPECTED_FIELDS :: nat where
  "EXPECTED_FIELDS = 10"

record GitIdentity =
  name :: jsstring
  email :: jsstring

text \<open>A \<^verbatim>\<open>Date\<close> is its time value, milliseconds since the epoch.\<close>

record Commit =
  hash :: jsstring
  parents :: "jsstring list"
  author :: GitIdentity
  committer :: GitIdentity
  authoredAt :: int
  committedAt :: int
  subject :: jsstring
  body :: jsstring

datatype ParseErrorType = malformed_record | invalid_hash | invalid_date

record ParseError =
  etype :: ParseErrorType
  message :: jsstring
  erecord :: "jsstring option"
  efield :: "jsstring option"

record ParseCommitsResult =
  commits :: "Commit list"
  errors :: "ParseError list"

text \<open>\<^verbatim>\<open>isValidHash\<close>: \<^verbatim>\<open>/^[a-f0-9]{40}$/i.test(value)\<close>, case-insensitive.\<close>

definition isValidHash :: "jsstring \<Rightarrow> bool" where
  "isValidHash v \<longleftrightarrow> length v = 40 \<and> list_all isHexAnyCase v"

definition parseParentHashes :: "jsstring \<Rightarrow> jsstring list" where
  "parseParentHashes raw =
     (let trimmed = trim raw in
      if trimmed = [] then []
      else map (\<lambda>h. unsafeCommitHash (toLowerCase h))
             (filter isValidHash (filter (\<lambda>h. length h > 0) (splitWs [] trimmed))))"

text \<open>
  \<^verbatim>\<open>parseDate\<close>. The platform's \<^verbatim>\<open>new Date(string)\<close> is a parameter \<open>date\<close>: it gives
  the time value of the date, or \<open>None\<close> where \<^verbatim>\<open>getTime()\<close> is NaN.
\<close>

definition parseDate :: "(jsstring \<Rightarrow> int option) \<Rightarrow> jsstring \<Rightarrow> int option" where
  "parseDate date raw =
     (let trimmed = trim raw in
      if trimmed = [] then None else date trimmed)"

text \<open>
  \<^verbatim>\<open>parseCommitRecord\<close>. After the length check the nine leading fields exist, so the
  destructuring reads them by index and the source's \<^verbatim>\<open>?? ''\<close> defaults are never taken.
\<close>

definition parseCommitRecord ::
  "(jsstring \<Rightarrow> int option) \<Rightarrow> jsstring \<Rightarrow> ParseError + Commit" where
  "parseCommitRecord date rec =
     (let fields = split FIELD_SEPARATOR rec in
      if length fields < EXPECTED_FIELDS - 1 then
        Inl \<lparr>etype = malformed_record,
             message = lit ''Expected at least '' @ dec (EXPECTED_FIELDS - 1) @
                       lit '' fields, got '' @ dec (length fields),
             erecord = Some (take 100 rec), efield = None\<rparr>
      else
        let hashRaw = fields ! 0; parentsRaw = fields ! 1;
            authorName = fields ! 2; authorEmail = fields ! 3; authorDateRaw = fields ! 4;
            committerName = fields ! 5; committerEmail = fields ! 6;
            commitDateRaw = fields ! 7; subj = fields ! 8; bodyParts = drop 9 fields;
            h = trim hashRaw
        in
        if h = [] \<or> \<not> isValidHash h then
          Inl \<lparr>etype = invalid_hash,
               message = lit ''Invalid commit hash: '' @ h,
               erecord = Some (take 100 rec), efield = Some (lit ''hash'')\<rparr>
        else
          let ps = parseParentHashes parentsRaw;
              authoredAt = parseDate date authorDateRaw;
              committedAt = parseDate date commitDateRaw
          in
          (case authoredAt of
             None \<Rightarrow>
               Inl \<lparr>etype = invalid_date,
                    message = lit ''Invalid author date: '' @ authorDateRaw,
                    erecord = Some (take 100 rec), efield = Some (lit ''authoredAt'')\<rparr>
           | Some a \<Rightarrow>
              (case committedAt of
                 None \<Rightarrow>
                   Inl \<lparr>etype = invalid_date,
                        message = lit ''Invalid commit date: '' @ commitDateRaw,
                        erecord = Some (take 100 rec), efield = Some (lit ''committedAt'')\<rparr>
               | Some c \<Rightarrow>
                   Inr \<lparr>hash = unsafeCommitHash h, parents = ps,
                        author = \<lparr>name = authorName, email = authorEmail\<rparr>,
                        committer = \<lparr>name = committerName, email = committerEmail\<rparr>,
                        authoredAt = a, committedAt = c, subject = subj,
                        body = trim (join FIELD_SEPARATOR bodyParts)\<rparr>)))"

text \<open>The loop of \<^verbatim>\<open>parseCommits\<close> over the records, pushing to one of the two arrays.\<close>

fun parseRecords ::
  "(jsstring \<Rightarrow> int option) \<Rightarrow> jsstring list \<Rightarrow> ParseCommitsResult \<Rightarrow> ParseCommitsResult" where
  "parseRecords date [] acc = acc"
| "parseRecords date (r # rs) acc =
     (case parseCommitRecord date r of
        Inr c \<Rightarrow> parseRecords date rs (acc\<lparr>commits := commits acc @ [c]\<rparr>)
      | Inl e \<Rightarrow> parseRecords date rs (acc\<lparr>errors := errors acc @ [e]\<rparr>))"

text \<open>The records \<^verbatim>\<open>parseCommits\<close> iterates over: the pieces between record separators
  that are not blank.\<close>

definition commitRecords :: "jsstring \<Rightarrow> jsstring list" where
  "commitRecords raw = filter (\<lambda>r. length (trim r) > 0) (split RECORD_SEPARATOR raw)"

definition parseCommits :: "(jsstring \<Rightarrow> int option) \<Rightarrow> jsstring \<Rightarrow> ParseCommitsResult" where
  "parseCommits date raw =
     (if raw = [] \<or> length (trim raw) = 0 then \<lparr>commits = [], errors = []\<rparr>
      else parseRecords date (commitRecords raw) \<lparr>commits = [], errors = []\<rparr>)"

section \<open>Regular expressions of the platform\<close>

text \<open>
  The program builds every regular expression from \<^verbatim>\<open>^\<close>, an escaped pattern and
  \<^verbatim>\<open>$\<close>, with no flags. The model of \<^verbatim>\<open>new RegExp(source)\<close> covers the syntax such a
  source can contain: the start anchor, terms made of an atom (\<^verbatim>\<open>.\<close>, an escaped syntax
  character, or a plain character) and an optional quantifier (\<^verbatim>\<open>*\<close> or \<^verbatim>\<open>?\<close>, each
  optionally followed by the lazy marker \<^verbatim>\<open>?\<close>), and the end anchor as the last
  character. A quantifier with nothing to repeat is the \<^verbatim>\<open>SyntaxError\<close> the constructor
  throws; any other construct is reported as \<open>Unsupported\<close>. \<^verbatim>\<open>.\<close> matches every code
  unit but a line terminator.
\<close>

datatype RegexError = SyntaxError | Unsupported

datatype RegexAtom = AnyChar | Chr jschar

datatype RegexQuantifier = Once | Optional | Repeated

type_synonym RegexTerm = "RegexAtom \<times> RegexQuantifier"

definition isSyntaxCharacter :: "jschar \<Rightarrow> bool" where
  "isSyntaxCharacter c \<longleftrightarrow>
     c \<in> set (lit ''^$.*+?()[]{}|'') \<or> c = 92"

definition isLineTerminator :: "jschar \<Rightarrow> bool" where
  "isLineTerminator c \<longleftrightarrow> c = 10 \<or> c = 13 \<or> c = 8232 \<or> c = 8233"

definition parseAtom :: "jschar \<Rightarrow> jsstring \<Rightarrow> RegexError + (RegexAtom \<times> jsstring)" where
  "parseAtom c rest =
     (if c = 92 then
        (case rest of
           [] \<Rightarrow> Inl SyntaxError
         | x # rest' \<Rightarrow> if isSyntaxCharacter x then Inr (Chr x, rest') else Inl Unsupported)
      else if c = 46 then Inr (AnyChar, rest)
      else if c = 42 \<or> c = 43 \<or> c = 63 then Inl SyntaxError
      else if isSyntaxCharacter c then Inl Unsupported
      else Inr (Chr c, rest))"

definition skipLazy :: "jsstring \<Rightarrow> jsstring" where
  "skipLazy rest = (case rest of [] \<Rightarrow> [] | c # rest' \<Rightarrow> if c = 63 then rest' else rest)"

definition parseQuantifier :: "jsstring \<Rightarrow> RegexError + (RegexQuantifier \<times> jsstring)" where
  "parseQuantifier rest =
     (case rest of
        [] \<Rightarrow> Inr (Once, [])
      | c # rest' \<Rightarrow>
          if c = 42 then Inr (Repeated, skipLazy rest')
          else if c = 63 then Inr (Optional, skipLazy rest')
          else if c = 43 \<or> c = 123 then Inl Unsupported
          else Inr (Once, rest))"

lemma parseAtom_length: "parseAtom c rest = Inr (a, r) \<Longrightarrow> length r \<le> length rest"
  by (auto simp: parseAtom_def split: if_splits list.splits)

lemma skipLazy_length: "length (skipLazy r) \<le> length r"
  by (auto simp: skipLazy_def split: list.splits)

lemma parseQuantifier_length: "parseQuantifier rest = Inr (q, r) \<Longrightarrow> length r \<le> length rest"
  using skipLazy_length
  by (auto simp: parseQuantifier_def le_SucI split: if_splits list.splits)

function parseTerms :: "jsstring \<Rightarrow> RegexError + RegexTerm list" where
  "parseTerms [] = Inl Unsupported"
| "parseTerms (c # rest) =
     (if c = 36 \<and> rest = [] then Inr []
      else
        (case parseAtom c rest of
           Inl e \<Rightarrow> Inl e
         | Inr (a, rest1) \<Rightarrow>
            (case parseQuantifier rest1 of
               Inl e \<Rightarrow> Inl e
             | Inr (q, rest2) \<Rightarrow>
                (case parseTerms rest2 of
                   Inl e \<Rightarrow> Inl e
                 | Inr ts \<Rightarrow> Inr ((a, q) # ts)))))"
  by pat_completeness auto
termination
proof (relation "measure length")
  show "wf (measure length)" by simp
next
  fix c rest x2 a rest1 x2a q rest2
  assume "parseAtom c rest = Inr x2" "(a, rest1) = x2"
         "parseQuantifier rest1 = Inr x2a" "(q, rest2) = x2a"
  then have "length rest1 \<le> length rest" "length rest2 \<le> length rest1"
    using parseAtom_length[of c rest a rest1] parseQuantifier_length[of rest1 q rest2]
    by auto
  then show "(rest2, c # rest) \<in> measure length" by simp
qed

text \<open>\<^verbatim>\<open>regex.test(s)\<close> for an anchored expression: the terms match the whole string.\<close>

fun atomMatches :: "RegexAtom \<Rightarrow> jschar \<Rightarrow> bool" where
  "atomMatches AnyChar c = (\<not> isLineTerminator c)"
| "atomMatches (Chr x) c = (c = x)"

fun matchTerms :: "RegexTerm list \<Rightarrow> jsstring \<Rightarrow> bool" where
  "matchTerms [] s = (s = [])"
| "matchTerms ((a, Once) # ts) s =
     (case s of [] \<Rightarrow> False | c # cs \<Rightarrow> atomMatches a c \<and> matchTerms ts cs)"
| "matchTerms ((a, Optional) # ts) s =
     (matchTerms ts s \<or>
      (case s of [] \<Rightarrow> False | c # cs \<Rightarrow> atomMatches a c \<and> matchTerms ts cs))"
| "matchTerms ((a, Repeated) # ts) s =
     (matchTerms ts s \<or>
      (case s of [] \<Rightarrow> False
       | c # cs \<Rightarrow> atomMatches a c \<and> matchTerms ((a, Repeated) # ts) cs))"

definition regExp :: "jsstring \<Rightarrow> RegexError + RegexTerm list" where
  "regExp source =
     (case source of
        [] \<Rightarrow> Inl Unsupported
      | c # rest \<Rightarrow> if c = 94 then parseTerms rest else Inl Unsupported)"

section \<open>Protected-branch matching (parser.ts)\<close>

text \<open>The two \<^verbatim>\<open>replace\<close> calls of \<^verbatim>\<open>matchGlob\<close>: a backslash before each of
  \<^verbatim>\<open>. + ^ $ { } ( ) | [ ] \\<close>, then \<^verbatim>\<open>.*\<close> for each \<^verbatim>\<open>*\<close>.\<close>

definition escapeSpecials :: "jsstring \<Rightarrow> jsstring" where
  "escapeSpecials pattern =
     concat (map (\<lambda>c. if c \<in> set (lit ''.+^${}()|[]'') \<or> c = 92 then [92, c] else [c]) pattern)"

definition replaceStars :: "jsstring \<Rightarrow> jsstring" where
  "replaceStars s = concat (map (\<lambda>c. if c = 42 then lit ''.*'' else [c]) s)"

definition matchGlob :: "jsstring \<Rightarrow> jsstring \<Rightarrow> RegexError + bool" where
  "matchGlob v pattern =
     (if pattern = v then Inr True
      else
        let regexPattern = replaceStars (escapeSpecials pattern) in
        (case regExp (lit ''^'' @ regexPattern @ lit ''$'') of
           Inl e \<Rightarrow> Inl e
         | Inr regex \<Rightarrow> Inr (matchTerms regex v)))"

text \<open>\<^verbatim>\<open>matchesProtectedPattern\<close> of parser.ts.\<close>

fun parserMatchesProtectedPattern :: "jsstring \<Rightarrow> jsstring list \<Rightarrow> RegexError + bool" where
  "parserMatchesProtectedPattern nm [] = Inr False"
| "parserMatchesProtectedPattern nm (pattern # patterns) =
     (case matchGlob nm pattern of
        Inl e \<Rightarrow> Inl e
      | Inr True \<Rightarrow> Inr True
      | Inr False \<Rightarrow> parserMatchesProtectedPattern nm patterns)"

section \<open>Repository graph (types.ts)\<close>

text \<open>
  A JavaScript \<^verbatim>\<open>Map\<close> is an association list in insertion order: \<^verbatim>\<open>get\<close> is
  \<open>map_of\<close>, \<^verbatim>\<open>set\<close> is \<open>AList.update\<close> (which overwrites in place or appends),
  \<^verbatim>\<open>delete\<close> is \<open>AList.delete\<close>, \<^verbatim>\<open>keys()\<close> is \<open>map fst\<close>.
\<close>

type_synonym ('k, 'v) jsmap = "('k \<times> 'v) list"

definition mapHas :: "('k, 'v) jsmap \<Rightarrow> 'k \<Rightarrow> bool" where
  "mapHas m k \<longleftrightarrow> map_of m k \<noteq> None"

datatype RefType = local | remote | tag

text \<open>The fields of a ref that the graph and the layout read (a \<^verbatim>\<open>Branch\<close> or \<^verbatim>\<open>Tag\<close>
  is a \<^verbatim>\<open>GitRef\<close> with further fields).\<close>

record GitRef =
  name :: jsstring
  fullName :: jsstring
  commitHash :: jsstring
  type :: RefType
  isHead :: bool

record RepositoryGraph =
  commits :: "(jsstring, Commit) jsmap"
  refs :: "GitRef list"
  head :: "jsstring option"
  headRef :: "jsstring option"
  children :: "(jsstring, jsstring list) jsmap"
  commitsByRef :: "(jsstring, jsstring) jsmap"
  refsByCommit :: "(jsstring, GitRef list) jsmap"
  roots :: "jsstring list"
  topologicalOrder :: "jsstring list"

section \<open>Graph builder (graph.ts)\<close>

text \<open>\<^verbatim>\<open>buildGraph\<close>: the index of the commits, the children of each parent in the order
  the commits are met, the two ref indices, the roots and the order as given.\<close>

definition pushTo :: "'k \<Rightarrow> 'v \<Rightarrow> ('k, 'v list) jsmap \<Rightarrow> ('k, 'v list) jsmap" where
  "pushTo k v m =
     (case map_of m k of
        None \<Rightarrow> AList.update k [v] m
      | Some vs \<Rightarrow> AList.update k (vs @ [v]) m)"

definition buildGraph ::
  "Commit list \<Rightarrow> GitRef list \<Rightarrow> jsstring option \<Rightarrow> jsstring option \<Rightarrow> RepositoryGraph" where
  "buildGraph cs rs headCommit headRefName =
     (let commitMap = foldl (\<lambda>m c. AList.update (Commit.hash c) c m) [] cs;
          childrenMap =
            foldl (\<lambda>m c. foldl (\<lambda>m' parentHash. pushTo parentHash (Commit.hash c) m')
                              m (Commit.parents c)) [] cs;
          byRef =
            foldl (\<lambda>m r. AList.update (GitRef.fullName r) (GitRef.commitHash r)
                             (AList.update (GitRef.name r) (GitRef.commitHash r) m)) [] rs;
          byCommit = foldl (\<lambda>m r. pushTo (GitRef.commitHash r) r m) [] rs;
          rootList =
            map Commit.hash
              (filter (\<lambda>c. length (Commit.parents c) = 0 \<or>
                             \<not> list_ex (\<lambda>p. mapHas commitMap p) (Commit.parents c)) cs)
      in \<lparr>RepositoryGraph.commits = commitMap, refs = rs, head = headCommit,
          headRef = headRefName, children = childrenMap, commitsByRef = byRef,
          refsByCommit = byCommit, roots = rootList,
          topologicalOrder = map Commit.hash cs\<rparr>)"

section \<open>Graph traversal (graph.ts)\<close>

text \<open>
  \<^verbatim>\<open>findMergeBase\<close>. Both searches are breadth-first loops over a queue and a set of
  hashes already met. Each loop ends: a hash enters the queue only when it first enters
  the set, and only the parents listed by loaded commits can enter.
\<close>

text \<open>The inner loop of the first search: each parent not yet in the set is added to it
  and pushed on the queue.\<close>

fun visitParents ::
  "jsstring list \<Rightarrow> jsstring set \<times> jsstring list \<Rightarrow> jsstring set \<times> jsstring list" where
  "visitParents [] st = st"
| "visitParents (parent # ps) (seen, queue) =
     (if parent \<notin> seen then visitParents ps (insert parent seen, queue @ [parent])
      else visitParents ps (seen, queue))"

definition knownParents :: "RepositoryGraph \<Rightarrow> jsstring set" where
  "knownParents g = (\<Union>c \<in> snd ` set (RepositoryGraph.commits g). set (Commit.parents c))"

lemma finite_knownParents: "finite (knownParents g)"
  by (simp add: knownParents_def)

lemma parents_known:
  "map_of (RepositoryGraph.commits g) h = Some c \<Longrightarrow> set (Commit.parents c) \<subseteq> knownParents g"
  unfolding knownParents_def by (force dest: map_of_SomeD)

lemma visitParents_measure:
  "finite U \<Longrightarrow> set ps \<subseteq> U \<Longrightarrow> visitParents ps (seen, queue) = (seen', queue') \<Longrightarrow>
   card (U - seen') + length queue' = card (U - seen) + length queue"
proof (induction ps arbitrary: seen queue)
  case Nil
  then show ?case by simp
next
  case (Cons p ps)
  show ?case
  proof (cases "p \<in> seen")
    case True
    with Cons show ?thesis by simp
  next
    case False
    with Cons.prems have v: "visitParents ps (insert p seen, queue @ [p]) = (seen', queue')"
      by simp
    have pU: "p \<in> U - seen" using Cons.prems False by simp
    have "card (U - insert p seen) + length (queue @ [p]) = card (U - seen) + length queue"
    proof -
      have "U - insert p seen = (U - seen) - {p}" by auto
      then have "card (U - insert p seen) = card (U - seen) - 1"
        using pU Cons.prems(1) by simp
      moreover have "card (U - seen) > 0"
        using pU Cons.prems(1) by (metis card_gt_0_iff empty_iff finite_Diff)
      ultimately show ?thesis by simp
    qed
    with Cons.IH[OF Cons.prems(1) _ v] Cons.prems(2) show ?thesis by simp
  qed
qed

lemma visitParents_decreases:
  assumes "map_of (RepositoryGraph.commits g) current = Some c"
      and "(seen', queue') = visitParents (Commit.parents c) (seen, queue)"
  shows "card (knownParents g - seen') + length queue' <
         Suc (card (knownParents g - seen) + length queue)"
  using visitParents_measure[OF finite_knownParents parents_known[OF assms(1)] assms(2)[symmetric]]
  by simp

function ancestorsLoop :: "RepositoryGraph \<Rightarrow> jsstring list \<Rightarrow> jsstring set \<Rightarrow> jsstring set" where
  "ancestorsLoop g [] seen = seen"
| "ancestorsLoop g (current # queue) seen =
     (case map_of (RepositoryGraph.commits g) current of
        None \<Rightarrow> ancestorsLoop g queue seen
      | Some commit \<Rightarrow>
          (case visitParents (Commit.parents commit) (seen, queue) of
             (seen', queue') \<Rightarrow> ancestorsLoop g queue' seen'))"
  by pat_completeness auto
termination
  by (relation "measure (\<lambda>(g, queue, seen). card (knownParents g - seen) + length queue)")
     (simp_all add: visitParents_decreases)

text \<open>The inner loop of the second search: the first parent found in \<open>anc\<close> ends the
  search; a parent not yet visited is marked and pushed.\<close>

fun scanParents ::
  "jsstring set \<Rightarrow> jsstring list \<Rightarrow> jsstring set \<times> jsstring list \<Rightarrow>
   jsstring + jsstring set \<times> jsstring list" where
  "scanParents anc [] st = Inr st"
| "scanParents anc (parent # ps) (visited, queue) =
     (if parent \<in> anc then Inl parent
      else if parent \<notin> visited then scanParents anc ps (insert parent visited, queue @ [parent])
      else scanParents anc ps (visited, queue))"

lemma scanParents_visitParents:
  "scanParents anc ps st = Inr st' \<Longrightarrow> visitParents ps st = st'"
  by (induction anc ps st rule: scanParents.induct) (auto split: if_splits)

lemma scanParents_decreases:
  assumes "map_of (RepositoryGraph.commits g) current = Some c"
      and "scanParents anc (Commit.parents c) (visited, queue) = Inr (visited', queue')"
  shows "card (knownParents g - visited') + length queue' <
         Suc (card (knownParents g - visited) + length queue)"
  using visitParents_decreases[OF assms(1), of visited' queue' visited queue]
    scanParents_visitParents[OF assms(2)]
  by simp

function searchLoop ::
  "RepositoryGraph \<Rightarrow> jsstring set \<Rightarrow> jsstring list \<Rightarrow> jsstring set \<Rightarrow> jsstring option" where
  "searchLoop g anc [] visited = None"
| "searchLoop g anc (current # queue) visited =
     (case map_of (RepositoryGraph.commits g) current of
        None \<Rightarrow> searchLoop g anc queue visited
      | Some commit \<Rightarrow>
          (case scanParents anc (Commit.parents commit) (visited, queue) of
             Inl parent \<Rightarrow> Some parent
           | Inr (visited', queue') \<Rightarrow> searchLoop g anc queue' visited'))"
  by pat_completeness auto
termination
  by (relation "measure (\<lambda>(g, anc, queue, visited).
          card (knownParents g - visited) + length queue)")
     (auto simp: scanParents_decreases)

definition findMergeBase :: "RepositoryGraph \<Rightarrow> jsstring \<Rightarrow> jsstring \<Rightarrow> jsstring option" where
  "findMergeBase g hash1 hash2 =
     (let ancestors1 = ancestorsLoop g [hash1] {hash1} in
      if hash2 \<in> ancestors1 then Some hash2
      else searchLoop g ancestors1 [hash2] {hash2})"

section \<open>Visualization data structures (visualization.ts)\<close>

record VisualRef =
  name :: jsstring
  type :: RefType
  isHead :: bool
  isProtected :: bool

datatype EdgeType = straight | merge | fork

text \<open>Rows and lanes are JavaScript numbers that hold integers; the field \<^verbatim>\<open>id\<close> is
  \<open>edgeId\<close> here.\<close>

record VisualEdge =
  edgeId :: jsstring
  fromHash :: jsstring
  toHash :: jsstring
  fromRow :: int
  fromLane :: int
  toRow :: int
  toLane :: int
  type :: EdgeType
  parentIndex :: nat

record VisualCommit =
  hash :: jsstring
  row :: int
  lane :: int
  isMerge :: bool
  isBranchTip :: bool
  isRoot :: bool
  isHead :: bool
  refs :: "VisualRef list"
  edgeIds :: "jsstring list"

record VisualGraph =
  commits :: "VisualCommit list"
  edges :: "VisualEdge list"
  totalRows :: int
  totalLanes :: int
  commitByHash :: "(jsstring, VisualCommit) jsmap"
  commitByRow :: "(int, VisualCommit) jsmap"
  edgeById :: "(jsstring, VisualEdge) jsmap"
  activeLanesAtRow :: "(int, int list) jsmap"

text \<open>
  \<^verbatim>\<open>matchesProtectedPattern\<close> of visualization.ts: the same test inline, for each pattern
  in turn.
\<close>

fun matchesProtectedPattern :: "jsstring \<Rightarrow> jsstring list \<Rightarrow> RegexError + bool" where
  "matchesProtectedPattern nm [] = Inr False"
| "matchesProtectedPattern nm (pattern # patterns) =
     (if pattern = nm then Inr True
      else
        (case regExp (lit ''^'' @ replaceStars (escapeSpecials pattern) @ lit ''$'') of
           Inl e \<Rightarrow> Inl e
         | Inr regex \<Rightarrow>
             if matchTerms regex nm then Inr True
             else matchesProtectedPattern nm patterns))"

section \<open>Lane assignment (visualization.ts)\<close>

record LayoutOptions =
  protectedBranches :: "jsstring list option"

record LaneState =
  laneByCommit :: "(jsstring, int) jsmap"
  activeLanes :: "(int, jsstring) jsmap"
  freeLanes :: "int list"
  maxLane :: int

text \<open>\<^verbatim>\<open>allocateLane\<close> returns the lane together with the updated state.\<close>

definition allocateLane :: "LaneState \<Rightarrow> int \<times> LaneState" where
  "allocateLane state =
     (if length (freeLanes state) > 0 then
        (let sorted = sort (freeLanes state)
         in (hd sorted, state\<lparr>freeLanes := tl sorted\<rparr>))
      else (maxLane state + 1, state\<lparr>maxLane := maxLane state + 1\<rparr>))"

definition freeLane :: "LaneState \<Rightarrow> int \<Rightarrow> LaneState" where
  "freeLane state ln =
     state\<lparr>freeLanes :=
             (if ln \<in> set (freeLanes state) then freeLanes state else freeLanes state @ [ln]),
           activeLanes := AList.delete ln (activeLanes state)\<rparr>"

text \<open>\<^verbatim>\<open>toVisualRef\<close>; the regular expression built for a pattern may throw.\<close>

definition toVisualRef :: "GitRef \<Rightarrow> LayoutOptions \<Rightarrow> RegexError + VisualRef" where
  "toVisualRef r options =
     (case matchesProtectedPattern (GitRef.name r)
             (case protectedBranches options of None \<Rightarrow> [] | Some ps \<Rightarrow> ps) of
        Inl e \<Rightarrow> Inl e
      | Inr p \<Rightarrow>
          Inr \<lparr>VisualRef.name = GitRef.name r, VisualRef.type = GitRef.type r,
               VisualRef.isHead = GitRef.isHead r, VisualRef.isProtected = p\<rparr>)"

text \<open>\<^verbatim>\<open>refsAtCommit.map((ref) => toVisualRef(ref, options))\<close>.\<close>

fun toVisualRefs :: "GitRef list \<Rightarrow> LayoutOptions \<Rightarrow> RegexError + VisualRef list" where
  "toVisualRefs [] options = Inr []"
| "toVisualRefs (r # rs) options =
     (case toVisualRef r options of
        Inl e \<Rightarrow> Inl e
      | Inr v \<Rightarrow>
          (case toVisualRefs rs options of
             Inl e \<Rightarrow> Inl e
           | Inr vs \<Rightarrow> Inr (v # vs)))"

text \<open>
  The loop over the parents of one commit. It carries the lane state, the array
  \<^verbatim>\<open>edges\<close>, the commit's \<^verbatim>\<open>edgeIds\<close> and the map \<^verbatim>\<open>edgeById\<close>; \<open>n\<close> is
  \<^verbatim>\<open>commit.parents.length\<close>.
\<close>

fun parentsLoop ::
  "jsstring \<Rightarrow> int \<Rightarrow> int \<Rightarrow> nat \<Rightarrow> nat \<Rightarrow> jsstring list \<Rightarrow>
   LaneState \<times> VisualEdge list \<times> jsstring list \<times> (jsstring, VisualEdge) jsmap \<Rightarrow>
   LaneState \<times> VisualEdge list \<times> jsstring list \<times> (jsstring, VisualEdge) jsmap" where
  "parentsLoop h r ln n parentIdx [] acc = acc"
| "parentsLoop h r ln n parentIdx (parentHash # rest) (state, es, ids, byId) =
     (let isFirstParent = (parentIdx = 0);
          (parentLane, state') =
            (case map_of (laneByCommit state) parentHash of
               Some l \<Rightarrow> (l, state)
             | None \<Rightarrow>
                 if isFirstParent then
                   (ln, state\<lparr>laneByCommit := AList.update parentHash ln (laneByCommit state)\<rparr>)
                 else
                   (let (l, s) = allocateLane state
                    in (l, s\<lparr>laneByCommit := AList.update parentHash l (laneByCommit s)\<rparr>)));
          edgeType =
            (if n > 1 \<and> parentIdx > 0 then merge
             else if ln \<noteq> parentLane then fork
             else straight);
          eid = h @ lit ''-'' @ parentHash @ lit ''-'' @ dec parentIdx;
          edge = \<lparr>edgeId = eid, fromHash = h, toHash = parentHash, fromRow = r,
                  fromLane = ln, toRow = -1, toLane = parentLane, type = edgeType,
                  parentIndex = parentIdx\<rparr>
      in parentsLoop h r ln n (parentIdx + 1) rest
           (state', es @ [edge], ids @ [eid], AList.update eid edge byId))"

text \<open>
  One iteration of the main loop, for a hash that \<^verbatim>\<open>graph.commits\<close> holds. The
  variables of \<^verbatim>\<open>createVisualGraph\<close> are the lane state and the six collections of the
  result, kept in a \<open>VisualGraph\<close> whose totals are filled in at the end.
\<close>

definition layoutCommit ::
  "RepositoryGraph \<Rightarrow> LayoutOptions \<Rightarrow> int \<Rightarrow> jsstring \<Rightarrow> Commit \<Rightarrow>
   LaneState \<times> VisualGraph \<Rightarrow> RegexError + LaneState \<times> VisualGraph" where
  "layoutCommit graph options r h commit acc =
     (case acc of (state0, vg) \<Rightarrow>
      let (ln, state1) =
            (case map_of (laneByCommit state0) h of
               Some l \<Rightarrow> (l, state0)
             | None \<Rightarrow> allocateLane state0);
          state2 = state1\<lparr>activeLanes := AList.update ln h (activeLanes state1)\<rparr>;
          refsAtCommit = (case map_of (refsByCommit graph) h of None \<Rightarrow> [] | Some rs \<Rightarrow> rs)
      in
      (case toVisualRefs refsAtCommit options of
         Inl e \<Rightarrow> Inl e
       | Inr visualRefs \<Rightarrow>
          let (state3, es, ids, byId) =
                parentsLoop h r ln (length (Commit.parents commit)) 0 (Commit.parents commit)
                  (state2, edges vg, [], edgeById vg);
              cs = (case map_of (children graph) h of None \<Rightarrow> [] | Some cs \<Rightarrow> cs);
              hasChildInSameLane =
                list_ex (\<lambda>childHash.
                           case map_of (commitByHash vg) childHash of
                             None \<Rightarrow> False
                           | Some c \<Rightarrow> lane c = ln) cs;
              state4 =
                (if length cs = 0 \<or> \<not> hasChildInSameLane then
                   (let isLaneReservedForParent =
                          list_ex (\<lambda>p. map_of (laneByCommit state3) p = Some ln)
                            (Commit.parents commit)
                    in if \<not> isLaneReservedForParent \<and> ln > 0 then freeLane state3 ln
                       else state3)
                 else state3);
              currentActiveLanes = sort (map fst (activeLanes state4));
              state5 =
                (if map_of (activeLanes state4) ln = Some h
                 then state4\<lparr>activeLanes := AList.delete ln (activeLanes state4)\<rparr>
                 else state4);
              visualCommit =
                \<lparr>hash = h, row = r, lane = ln,
                 isMerge = (length (Commit.parents commit) > 1),
                 isBranchTip = (length refsAtCommit > 0),
                 isRoot = (length (Commit.parents commit) = 0 \<or>
                           list_all (\<lambda>p. \<not> mapHas (RepositoryGraph.commits graph) p)
                             (Commit.parents commit)),
                 isHead = (head graph = Some h),
                 refs = visualRefs, edgeIds = ids\<rparr>
          in Inr (state5,
                  vg\<lparr>commits := commits vg @ [visualCommit],
                     edges := es,
                     commitByHash := AList.update h visualCommit (commitByHash vg),
                     commitByRow := AList.update r visualCommit (commitByRow vg),
                     edgeById := byId,
                     activeLanesAtRow :=
                       AList.update r currentActiveLanes (activeLanesAtRow vg)\<rparr>)))"

text \<open>The main loop over the reversed topological order; a hash that is not a loaded
  commit is skipped and its row stays empty.\<close>

fun layoutLoop ::
  "RepositoryGraph \<Rightarrow> LayoutOptions \<Rightarrow> int \<Rightarrow> jsstring list \<Rightarrow>
   LaneState \<times> VisualGraph \<Rightarrow> RegexError + LaneState \<times> VisualGraph" where
  "layoutLoop graph options r [] acc = Inr acc"
| "layoutLoop graph options r (h # hs) acc =
     (case map_of (RepositoryGraph.commits graph) h of
        None \<Rightarrow> layoutLoop graph options (r + 1) hs acc
      | Some commit \<Rightarrow>
          (case layoutCommit graph options r h commit acc of
             Inl e \<Rightarrow> Inl e
           | Inr acc' \<Rightarrow> layoutLoop graph options (r + 1) hs acc'))"

text \<open>
  The second pass: each edge whose target is a laid-out commit is replaced, at its own
  position of the array and in \<^verbatim>\<open>edgeById\<close>, by a copy with \<^verbatim>\<open>toRow\<close> filled in.
\<close>

fun fillToRows ::
  "(jsstring, VisualCommit) jsmap \<Rightarrow> VisualEdge list \<Rightarrow>
   VisualEdge list \<times> (jsstring, VisualEdge) jsmap \<Rightarrow>
   VisualEdge list \<times> (jsstring, VisualEdge) jsmap" where
  "fillToRows byHash [] acc = acc"
| "fillToRows byHash (edge # rest) (done, byId) =
     (case map_of byHash (toHash edge) of
        None \<Rightarrow> fillToRows byHash rest (done @ [edge], byId)
      | Some parentCommit \<Rightarrow>
          (let updatedEdge = edge\<lparr>toRow := row parentCommit\<rparr>
           in fillToRows byHash rest
                (done @ [updatedEdge], AList.update (edgeId edge) updatedEdge byId)))"

definition createVisualGraph ::
  "RepositoryGraph \<Rightarrow> LayoutOptions \<Rightarrow> RegexError + VisualGraph" where
  "createVisualGraph graph options =
     (let state = \<lparr>laneByCommit = [], activeLanes = [], freeLanes = [], maxLane = -1\<rparr>;
          vg = \<lparr>commits = [], edges = [], totalRows = 0, totalLanes = 0, commitByHash = [],
                commitByRow = [], edgeById = [], activeLanesAtRow = []\<rparr>;
          orderedHashes = rev (topologicalOrder graph)
      in (case layoutLoop graph options 0 orderedHashes (state, vg) of
            Inl e \<Rightarrow> Inl e
          | Inr (state', vg') \<Rightarrow>
              (let (es, byId) = fillToRows (commitByHash vg') (edges vg') ([], edgeById vg')
               in Inr (vg'\<lparr>edges := es, edgeById := byId,
                           totalRows := int (length (commits vg')),
                           totalLanes := maxLane state' + 1\<rparr>))))"

section \<open>Layout utilities (visualization.ts)\<close>

text \<open>
  \<^verbatim>\<open>getVisibleEdges\<close>: the loop over the edges, with the result array and the set of
  ids already pushed.
\<close>

fun visibleEdgesLoop ::
  "int \<Rightarrow> int \<Rightarrow> VisualEdge list \<Rightarrow> VisualEdge list \<Rightarrow> jsstring set \<Rightarrow> VisualEdge list" where
  "visibleEdgesLoop startRow endRow [] result seen = result"
| "visibleEdgesLoop startRow endRow (edge # rest) result seen =
     (if edgeId edge \<in> seen then visibleEdgesLoop startRow endRow rest result seen
      else
        let minRow = min (fromRow edge) (toRow edge);
            maxRow = max (fromRow edge) (toRow edge)
        in if maxRow \<ge> startRow \<and> minRow \<le> endRow
           then visibleEdgesLoop startRow endRow rest (result @ [edge]) (insert (edgeId edge) seen)
           else visibleEdgesLoop startRow endRow rest result seen)"

definition getVisibleEdges :: "VisualGraph \<Rightarrow> int \<Rightarrow> int \<Rightarrow> VisualEdge list" where
  "getVisibleEdges graph startRow endRow =
     visibleEdgesLoop startRow endRow (edges graph) [] {}"

text \<open>
  The numbers of \<^verbatim>\<open>getBoundingBox\<close>: an integer, or one of the two infinities the
  running bounds start from.
\<close>

datatype jsnum = Num int | Infinity | NegInfinity

fun jsMin :: "jsnum \<Rightarrow> jsnum \<Rightarrow> jsnum" where
  "jsMin NegInfinity y = NegInfinity"
| "jsMin x NegInfinity = NegInfinity"
| "jsMin Infinity y = y"
| "jsMin x Infinity = x"
| "jsMin (Num a) (Num b) = Num (min a b)"

fun jsMax :: "jsnum \<Rightarrow> jsnum \<Rightarrow> jsnum" where
  "jsMax Infinity y = Infinity"
| "jsMax x Infinity = Infinity"
| "jsMax NegInfinity y = y"
| "jsMax x NegInfinity = x"
| "jsMax (Num a) (Num b) = Num (max a b)"

record BoundingBox =
  minRow :: jsnum
  maxRow :: jsnum
  minLane :: jsnum
  maxLane :: jsnum

definition boxCommit :: "BoundingBox \<Rightarrow> VisualCommit \<Rightarrow> BoundingBox" where
  "boxCommit b commit =
     \<lparr>minRow = jsMin (minRow b) (Num (row commit)),
      maxRow = jsMax (maxRow b) (Num (row commit)),
      minLane = jsMin (minLane b) (Num (lane commit)),
      maxLane = jsMax (maxLane b) (Num (lane commit))\<rparr>"

definition boxEdge :: "BoundingBox \<Rightarrow> VisualEdge \<Rightarrow> BoundingBox" where
  "boxEdge b edge =
     b\<lparr>minLane := jsMin (jsMin (minLane b) (Num (fromLane edge))) (Num (toLane edge)),
       maxLane := jsMax (jsMax (maxLane b) (Num (fromLane edge))) (Num (toLane edge))\<rparr>"

definition getBoundingBox :: "VisualCommit list \<Rightarrow> VisualEdge list \<Rightarrow> BoundingBox" where
  "getBoundingBox cs es =
     (if length cs = 0 then \<lparr>minRow = Num 0, maxRow = Num 0, minLane = Num 0, maxLane = Num 0\<rparr>
      else foldl boxEdge
             (foldl boxCommit
                \<lparr>minRow = Infinity, maxRow = NegInfinity,
                 minLane = Infinity, maxLane = NegInfinity\<rparr> cs) es)"

section \<open>Lane optimization (visualization.ts)\<close>

definition edgesCross :: "VisualEdge \<Rightarrow> VisualEdge \<Rightarrow> bool" where
  "edgesCross e1 e2 =
     (let e1MinRow = min (fromRow e1) (toRow e1);
          e1MaxRow = max (fromRow e1) (toRow e1);
          e2MinRow = min (fromRow e2) (toRow e2);
          e2MaxRow = max (fromRow e2) (toRow e2)
      in if e1MaxRow \<le> e2MinRow \<or> e2MaxRow \<le> e1MinRow then False
         else
           let e1Dir = toLane e1 - fromLane e1;
               e2Dir = toLane e2 - fromLane e2
           in if e1Dir = 0 \<or> e2Dir = 0 then False
              else
                let e1Left = min (fromLane e1) (toLane e1);
                    e1Right = max (fromLane e1) (toLane e1);
                    e2Left = min (fromLane e2) (toLane e2);
                    e2Right = max (fromLane e2) (toLane e2)
                in if e1Right \<le> e2Left \<or> e2Right \<le> e1Left then False
                   else (e1Dir > 0) \<noteq> (e2Dir > 0))"

text \<open>\<^verbatim>\<open>countCrossings\<close>: every pair of edges once, the earlier edge first.\<close>

fun countCrossings :: "VisualEdge list \<Rightarrow> nat" where
  "countCrossings [] = 0"
| "countCrossings (e # es) = length (filter (edgesCross e) es) + countCrossings es"

definition remapLane :: "(int, int) jsmap \<Rightarrow> int \<Rightarrow> int" where
  "remapLane mapping l = (case map_of mapping l of None \<Rightarrow> l | Some l' \<Rightarrow> l')"

definition remapEdgeLanes :: "VisualEdge list \<Rightarrow> (int, int) jsmap \<Rightarrow> VisualEdge list" where
  "remapEdgeLanes es mapping =
     map (\<lambda>e. e\<lparr>fromLane := remapLane mapping (fromLane e),
                 toLane := remapLane mapping (toLane e)\<rparr>) es"

definition applyLaneMapping :: "VisualGraph \<Rightarrow> (int, int) jsmap \<Rightarrow> VisualGraph" where
  "applyLaneMapping graph mapping =
     (let newCommits = map (\<lambda>c. c\<lparr>lane := remapLane mapping (lane c)\<rparr>) (commits graph);
          newEdges = remapEdgeLanes (edges graph) mapping
      in \<lparr>commits = newCommits, edges = newEdges,
          totalRows = totalRows graph, totalLanes = totalLanes graph,
          commitByHash = foldl (\<lambda>m c. AList.update (hash c) c m) [] newCommits,
          commitByRow = foldl (\<lambda>m c. AList.update (row c) c m) [] newCommits,
          edgeById = foldl (\<lambda>m e. AList.update (edgeId e) e m) [] newEdges,
          activeLanesAtRow =
            foldl (\<lambda>m (r, lanes). AList.update r (sort (map (remapLane mapping) lanes)) m) []
              (activeLanesAtRow graph)\<rparr>)"

text \<open>
  One pass of the \<^verbatim>\<open>for\<close> loop over the adjacent lane pairs, with the mapping and the
  flag \<^verbatim>\<open>improved\<close>. \<open>crossings\<close> is the count of the input graph, computed once before
  the loop. The mapping holds every lane below \<^verbatim>\<open>totalLanes\<close>, so both lookups succeed.
\<close>

fun swapPass ::
  "VisualEdge list \<Rightarrow> nat \<Rightarrow> int list \<Rightarrow> (int, int) jsmap \<times> bool \<Rightarrow> (int, int) jsmap \<times> bool" where
  "swapPass es crossings [] acc = acc"
| "swapPass es crossings (l # ls) (laneMapping, improved) =
     (case (map_of laneMapping l, map_of laneMapping (l + 1)) of
        (Some a, Some b) \<Rightarrow>
          (let newMapping = AList.update (l + 1) a (AList.update l b laneMapping);
               newEdges = remapEdgeLanes es newMapping;
               newCrossings = countCrossings newEdges
           in if newCrossings < crossings
              then swapPass es crossings ls
                     (AList.update (l + 1) a (AList.update l b laneMapping), True)
              else swapPass es crossings ls (laneMapping, improved))
      | _ \<Rightarrow> swapPass es crossings ls (laneMapping, improved))"

text \<open>The \<^verbatim>\<open>while (improved)\<close> loop; it need not end, so its result is optional.\<close>

partial_function (option) optimizeLoop ::
  "VisualEdge list \<Rightarrow> nat \<Rightarrow> int list \<Rightarrow> (int, int) jsmap \<Rightarrow> (int, int) jsmap option" where
  "optimizeLoop es crossings ls laneMapping =
     (case swapPass es crossings ls (laneMapping, False) of
        (laneMapping', improved) \<Rightarrow>
          if improved then optimizeLoop es crossings ls laneMapping'
          else Some laneMapping')"

declare optimizeLoop.simps [code]

definition optimizeLanes :: "VisualGraph \<Rightarrow> VisualGraph option" where
  "optimizeLanes graph =
     (let crossings = countCrossings (edges graph) in
      if crossings = 0 then Some graph
      else
        (case optimizeLoop (edges graph) crossings
                (map int [0 ..< nat (totalLanes graph - 1)])
                (map (\<lambda>i. (int i, int i)) [0 ..< nat (totalLanes graph)]) of
           None \<Rightarrow> None
         | Some laneMapping \<Rightarrow>
             if list_all (\<lambda>(k, v). k = v) laneMapping then Some graph
             else Some (applyLaneMapping graph laneMapping)))"

section \<open>Properties of the commit parser\<close>

lemma trim_Nil_iff: "trim s = [] \<longleftrightarrow> (\<forall>c\<in>set s. isWhitespace c)"
proof
  assume t: "trim s = []"
  show "\<forall>c\<in>set s. isWhitespace c"
  proof (rule ccontr)
    assume "\<not> (\<forall>c\<in>set s. isWhitespace c)"
    then have ne: "dropWhile isWhitespace s \<noteq> []" by (simp add: dropWhile_eq_Nil_conv)
    then have "\<not> isWhitespace (hd (dropWhile isWhitespace s))" by (rule hd_dropWhile)
    moreover have "hd (dropWhile isWhitespace s) \<in> set (rev (dropWhile isWhitespace s))"
      using ne by simp
    ultimately have "dropWhile isWhitespace (rev (dropWhile isWhitespace s)) \<noteq> []"
      by (metis dropWhile_eq_Nil_conv)
    with t show False by (simp add: trim_def)
  qed
next
  assume "\<forall>c\<in>set s. isWhitespace c"
  then have d: "dropWhile isWhitespace s = []" by (simp add: dropWhile_eq_Nil_conv)
  show "trim s = []" unfolding trim_def d by simp
qed

lemma set_split_subset: "p \<in> set (split sep s) \<Longrightarrow> set p \<subseteq> set s"
proof (induction s arbitrary: p)
  case Nil then show ?case by simp
next
  case (Cons c cs)
  show ?case
  proof (cases "c = sep")
    case True
    with Cons show ?thesis by auto
  next
    case False
    show ?thesis
    proof (cases "split sep cs")
      case Nil
      with False Cons.prems show ?thesis by simp
    next
      case (Cons q qs)
      with False Cons.prems Cons.IH[of q] Cons.IH[of p] show ?thesis by auto
    qed
  qed
qed

lemma commitRecords_blank: "trim raw = [] \<Longrightarrow> commitRecords raw = []"
  unfolding commitRecords_def filter_empty_conv 
  using set_split_subset trim_Nil_iff by (metis length_greater_0_conv subsetD)

lemma parseCommits_records:
  "parseCommits date raw = parseRecords date (commitRecords raw) \<lparr>ParseCommitsResult.commits = [], errors = []\<rparr>"
  by (cases "trim raw = []") (auto simp: parseCommits_def commitRecords_blank trim_def)

lemma parseRecords_acc:
  "parseRecords date rs acc =
     \<lparr>ParseCommitsResult.commits = ParseCommitsResult.commits acc @ ParseCommitsResult.commits (parseRecords date rs \<lparr>ParseCommitsResult.commits = [], errors = []\<rparr>),
      errors = errors acc @ errors (parseRecords date rs \<lparr>ParseCommitsResult.commits = [], errors = []\<rparr>)\<rparr>"
proof (induction rs arbitrary: acc)
  case Nil then show ?case by simp
next
  case (Cons r rs)
  show ?case
  proof (cases "parseCommitRecord date r")
    case (Inl e)
    then show ?thesis
      using Cons.IH[of "acc\<lparr>errors := errors acc @ [e]\<rparr>"] Cons.IH[of "\<lparr>ParseCommitsResult.commits = [], errors = [e]\<rparr>"]
      by simp
  next
    case (Inr c)
    then show ?thesis
      using Cons.IH[of "acc\<lparr>ParseCommitsResult.commits := ParseCommitsResult.commits acc @ [c]\<rparr>"] Cons.IH[of "\<lparr>ParseCommitsResult.commits = [c], errors = []\<rparr>"]
      by simp
  qed
qed

lemma parseRecords_append:
  "parseRecords date (rs1 @ rs2) acc = parseRecords date rs2 (parseRecords date rs1 acc)"
  by (induction rs1 arbitrary: acc) (auto split: sum.splits)

lemma dropWhile_none: "\<forall>x\<in>set xs. \<not> P x \<Longrightarrow> dropWhile P xs = xs"
  by (cases xs) auto

lemma trim_id: "\<forall>x\<in>set s. \<not> isWhitespace x \<Longrightarrow> trim s = s"
  unfolding trim_def by (simp add: dropWhile_none)

lemma split_no_sep: "sep \<notin> set s \<Longrightarrow> split sep s = [s]"
  by (induction s) auto

lemma split_append_sep: "sep \<notin> set a \<Longrightarrow> split sep (a @ sep # b) = a # split sep b"
  by (induction a) auto

lemma split_join:
  "fs \<noteq> [] \<Longrightarrow> \<forall>f\<in>set fs. sep \<notin> set f \<Longrightarrow> split sep (join sep fs) = fs"
proof (induction sep fs rule: join.induct)
  case (1 sep) then show ?case by simp
next
  case (2 sep p) then show ?case by (simp add: split_no_sep)
next
  case (3 sep p q ps)
  then show ?case by (simp add: split_append_sep)
qed

lemma trim_nonblank: "c \<in> set s \<Longrightarrow> \<not> isWhitespace c \<Longrightarrow> 0 < length (trim s)"
  using trim_Nil_iff[of s] by auto

lemma isValidHash_iff:
  "isValidHash h \<longleftrightarrow>
     length h = 40 \<and> (\<forall>c\<in>set h. c \<in> set (lit ''0123456789abcdefABCDEF''))"
proof -
  have "isHexAnyCase c \<longleftrightarrow> c \<in> set (lit ''0123456789abcdefABCDEF'')" for c
    unfolding isHexAnyCase_def isHexLower_def lit_def by (simp, arith)
  then show ?thesis by (simp add: isValidHash_def list_all_iff)
qed

text \<open>
  Claim C10. For every input that is empty or consists only of white space,
  \<^verbatim>\<open>parseCommits\<close> returns no commit and no error, whatever the platform's date parser is.
\<close>

theorem parseCommits_blank:
  "raw = [] \<or> (\<forall>c\<in>set raw. isWhitespace c) \<Longrightarrow>
     parseCommits date raw = \<lparr>ParseCommitsResult.commits = [], errors = []\<rparr>"
  using trim_Nil_iff[of raw] by (auto simp: parseCommits_def)

theorem parseCommits_blank_witness:
  "parseCommits (\<lambda>s. None) (lit '' '' @ [10, 9, 13, 10, 160]) = \<lparr>ParseCommitsResult.commits = [], errors = []\<rparr>"
  using parseCommits_blank[of "lit '' '' @ [10, 9, 13, 10, 160]" "\<lambda>s. None"]
  by (simp add: lit_def isWhitespace_def)

text \<open>
  Claim C1, as the code has it. Let \<open>r\<close> be any record \<^verbatim>\<open>parseCommits\<close> iterates over, with
  at least nine fields, and let \<open>h\<close> be its first field with surrounding white space
  trimmed. If \<open>h\<close> is not forty hexadecimal digits (of either case), the record contributes
  exactly one error, of type \<open>invalid_hash\<close>, and no commit, and the records before and
  after it are parsed as they are without it. If \<open>h\<close> is forty hexadecimal digits, the
  record never yields an \<open>invalid_hash\<close> error (its only possible error is
  \<open>invalid_date\<close>), and when it is accepted the stored hash is \<open>h\<close> in lower case.
\<close>

theorem parseCommits_hash_validation:
  assumes recs: "commitRecords raw = rs1 @ r # rs2"
      and nine: "9 \<le> length (split FIELD_SEPARATOR r)"
  shows "(let h = trim (hd (split FIELD_SEPARATOR r));
              hex40 = (length h = 40 \<and> (\<forall>c\<in>set h. c \<in> set (lit ''0123456789abcdefABCDEF'')));
              before = parseRecords date rs1 \<lparr>ParseCommitsResult.commits = [], errors = []\<rparr>;
              after = parseRecords date rs2 \<lparr>ParseCommitsResult.commits = [], errors = []\<rparr>
          in (\<not> hex40 \<longrightarrow>
                parseCommits date raw =
                  \<lparr>ParseCommitsResult.commits = ParseCommitsResult.commits before @ ParseCommitsResult.commits after,
                   errors = errors before @
                     [\<lparr>etype = invalid_hash, message = lit ''Invalid commit hash: '' @ h,
                       erecord = Some (take 100 r), efield = Some (lit ''hash'')\<rparr>] @
                     errors after\<rparr>) \<and>
             (hex40 \<longrightarrow>
                (\<forall>e. parseCommitRecord date r = Inl e \<longrightarrow> etype e = invalid_date) \<and>
                (\<forall>c. parseCommitRecord date r = Inr c \<longrightarrow>
                   Commit.hash c = toLowerCase h \<and>
                   parseCommits date raw =
                     \<lparr>ParseCommitsResult.commits = ParseCommitsResult.commits before @ [c] @ ParseCommitsResult.commits after,
                      errors = errors before @ errors after\<rparr>)))"
proof -
  define h where "h = trim (hd (split FIELD_SEPARATOR r))"
  define before where "before = parseRecords date rs1 \<lparr>ParseCommitsResult.commits = [], errors = []\<rparr>"
  define after where "after = parseRecords date rs2 \<lparr>ParseCommitsResult.commits = [], errors = []\<rparr>"
  have hd0: "split FIELD_SEPARATOR r ! 0 = hd (split FIELD_SEPARATOR r)"
    using nine by (cases "split FIELD_SEPARATOR r") auto
  have whole: "parseCommits date raw =
      (case parseCommitRecord date r of
         Inr c \<Rightarrow> \<lparr>ParseCommitsResult.commits = ParseCommitsResult.commits before @ [c] @ ParseCommitsResult.commits after,
                   errors = errors before @ errors after\<rparr>
       | Inl e \<Rightarrow> \<lparr>ParseCommitsResult.commits = ParseCommitsResult.commits before @ ParseCommitsResult.commits after,
                   errors = errors before @ [e] @ errors after\<rparr>)"
    unfolding parseCommits_records recs parseRecords_append before_def after_def
    by (cases "parseCommitRecord date r")
       (simp_all add: parseRecords_acc[of date rs2 "_\<lparr>ParseCommitsResult.commits := _\<rparr>"]
          parseRecords_acc[of date rs2 "_\<lparr>errors := _\<rparr>"])
  have bad: "parseCommitRecord date r =
      Inl \<lparr>etype = invalid_hash, message = lit ''Invalid commit hash: '' @ h,
           erecord = Some (take 100 r), efield = Some (lit ''hash'')\<rparr>"
    if "\<not> isValidHash h"
    using that nine unfolding parseCommitRecord_def h_def
    by (simp add: Let_def EXPECTED_FIELDS_def hd0)
  have good_err: "etype e = invalid_date" if "isValidHash h" "parseCommitRecord date r = Inl e" for e
    using that nine unfolding parseCommitRecord_def h_def
    by (auto simp: Let_def EXPECTED_FIELDS_def hd0 isValidHash_def split: option.splits if_splits)
  have good_hash: "Commit.hash c = toLowerCase h" if "isValidHash h" "parseCommitRecord date r = Inr c" for c
  proof -
    have "\<not> isWhitespace x" if "x \<in> set h" for x
      using \<open>isValidHash h\<close> that
      by (auto simp: isValidHash_def list_all_iff isHexAnyCase_def isHexLower_def isWhitespace_def)
    then have "trim h = h" by (simp add: trim_id)
    then show ?thesis
      using that nine unfolding parseCommitRecord_def h_def
      by (auto simp: Let_def EXPECTED_FIELDS_def hd0 unsafeCommitHash_def split: option.splits if_splits)
  qed
  show ?thesis
    unfolding Let_def h_def[symmetric] before_def[symmetric] after_def[symmetric]
      isValidHash_iff[symmetric]
    using bad good_err good_hash whole by (auto split: sum.splits)
qed

subsection \<open>Example log input\<close>

text \<open>
  A stand-in for the platform's date parser on the one date the examples use, and a log of
  two records in the format of the test suite's \<^verbatim>\<open>makeCommitRecord\<close>.
\<close>

definition sampleDate :: "jsstring \<Rightarrow> int option" where
  "sampleDate s = (if s = lit ''2024-01-15T10:30:00Z'' then Some 1705314600000 else None)"

definition upperHash :: jsstring where
  "upperHash = lit ''ABCDEF0123456789ABCDEF0123456789ABCDEF01''"

definition lowerHash :: jsstring where
  "lowerHash = lit ''abcdef0123456789abcdef0123456789abcdef01''"

definition sampleFields :: "jsstring \<Rightarrow> jsstring list" where
  "sampleFields h =
     [h, [], lit ''An'', lit ''a@x'', lit ''2024-01-15T10:30:00Z'',
      lit ''Cn'', lit ''c@x'', lit ''2024-01-15T10:30:00Z'', lit ''Subject'', []]"

definition badRecord :: jsstring where
  "badRecord = join FIELD_SEPARATOR (sampleFields (lit ''not-a-valid-hash''))"

definition goodRecord :: jsstring where
  "goodRecord = join FIELD_SEPARATOR (sampleFields (10 # upperHash))"

definition sampleLog :: jsstring where
  "sampleLog = join RECORD_SEPARATOR [badRecord, goodRecord, []]"

definition sampleCommit :: Commit where
  "sampleCommit = \<lparr>Commit.hash = lowerHash, parents = [],
        author = \<lparr>GitIdentity.name = lit ''An'', email = lit ''a@x''\<rparr>,
        committer = \<lparr>GitIdentity.name = lit ''Cn'', email = lit ''c@x''\<rparr>,
        authoredAt = 1705314600000, committedAt = 1705314600000,
        subject = lit ''Subject'', body = []\<rparr>"

lemma split_badRecord:
  "split FIELD_SEPARATOR badRecord = sampleFields (lit ''not-a-valid-hash'')"
  unfolding badRecord_def
  by (rule split_join) (simp_all add: sampleFields_def lit_def FIELD_SEPARATOR_def)

lemma split_goodRecord:
  "split FIELD_SEPARATOR goodRecord = sampleFields (10 # upperHash)"
  unfolding goodRecord_def
  by (rule split_join) (simp_all add: sampleFields_def lit_def FIELD_SEPARATOR_def upperHash_def)

lemma no_sep_badRecord: "RECORD_SEPARATOR \<notin> set badRecord"
  by (simp add: badRecord_def sampleFields_def lit_def FIELD_SEPARATOR_def RECORD_SEPARATOR_def)

lemma no_sep_goodRecord: "RECORD_SEPARATOR \<notin> set goodRecord"
  by (simp add: goodRecord_def sampleFields_def lit_def FIELD_SEPARATOR_def
      RECORD_SEPARATOR_def upperHash_def)

lemma commitRecords_sampleLog: "commitRecords sampleLog = [badRecord, goodRecord]"
proof -
  have s: "split RECORD_SEPARATOR sampleLog = [badRecord, goodRecord, []]"
    unfolding sampleLog_def
    by (rule split_join) (simp_all add: no_sep_badRecord no_sep_goodRecord)
  have b: "0 < length (trim badRecord)"
    by (rule trim_nonblank[of 110])
       (simp_all add: badRecord_def sampleFields_def lit_def isWhitespace_def)
  have g: "0 < length (trim goodRecord)"
    by (rule trim_nonblank[of 65])
       (simp_all add: goodRecord_def sampleFields_def lit_def isWhitespace_def upperHash_def)
  show ?thesis
    unfolding commitRecords_def s using b g by (simp add: trim_def)
qed

lemma trim_hash_goodRecord: "trim (10 # upperHash) = upperHash"
  by (simp add: trim_def upperHash_def lit_def isWhitespace_def)

lemma parse_goodRecord: "parseCommitRecord sampleDate goodRecord = Inr sampleCommit"
  unfolding parseCommitRecord_def split_goodRecord
  by (simp add: sampleFields_def EXPECTED_FIELDS_def trim_hash_goodRecord Let_def)
     (simp add: lit_def upperHash_def isValidHash_def isHexAnyCase_def isHexLower_def
        parseParentHashes_def parseDate_def trim_def isWhitespace_def sampleDate_def
        unsafeCommitHash_def toLowerCase_def sampleCommit_def lowerHash_def)

text \<open>
  The theorem at a log of two records: the first has the hash field
  \<^verbatim>\<open>not-a-valid-hash\<close>, the second an upper-case hash after a line feed.
\<close>

theorem parseCommits_hash_validation_witness:
  "commitRecords sampleLog = [] @ badRecord # [goodRecord] \<and>
   commitRecords sampleLog = [badRecord] @ goodRecord # [] \<and>
   9 \<le> length (split FIELD_SEPARATOR badRecord) \<and>
   9 \<le> length (split FIELD_SEPARATOR goodRecord) \<and>
   parseCommits sampleDate sampleLog =
     \<lparr>ParseCommitsResult.commits = [sampleCommit],
      errors = [\<lparr>etype = invalid_hash, message = lit ''Invalid commit hash: not-a-valid-hash'',
                 erecord = Some badRecord, efield = Some (lit ''hash'')\<rparr>]\<rparr> \<and>
   Commit.hash sampleCommit = toLowerCase upperHash"
proof -
  have r1: "commitRecords sampleLog = [] @ badRecord # [goodRecord]"
    by (simp add: commitRecords_sampleLog)
  have r2: "commitRecords sampleLog = [badRecord] @ goodRecord # []"
    by (simp add: commitRecords_sampleLog)
  have n1: "9 \<le> length (split FIELD_SEPARATOR badRecord)"
    by (simp add: split_badRecord sampleFields_def)
  have n2: "9 \<le> length (split FIELD_SEPARATOR goodRecord)"
    by (simp add: split_goodRecord sampleFields_def)
  have b: "trim (hd (split FIELD_SEPARATOR badRecord)) = lit ''not-a-valid-hash''"
    by (simp add: split_badRecord sampleFields_def trim_def lit_def isWhitespace_def)
  have t: "trim (hd (split FIELD_SEPARATOR goodRecord)) = upperHash"
    by (simp add: split_goodRecord sampleFields_def trim_hash_goodRecord)
  have pg: "parseRecords sampleDate [goodRecord] \<lparr>ParseCommitsResult.commits = [], errors = []\<rparr> =
              \<lparr>ParseCommitsResult.commits = [sampleCommit], errors = []\<rparr>"
    by (simp add: parse_goodRecord)
  have tb: "take 100 badRecord = badRecord"
    by (simp add: badRecord_def sampleFields_def lit_def)
  have l: "length (lit ''not-a-valid-hash'') \<noteq> 40" by (simp add: lit_def)
  from parseCommits_hash_validation[OF r1 n1, of sampleDate]
  have e: "parseCommits sampleDate sampleLog =
     \<lparr>ParseCommitsResult.commits = [sampleCommit],
      errors = [\<lparr>etype = invalid_hash, message = lit ''Invalid commit hash: not-a-valid-hash'',
                 erecord = Some badRecord, efield = Some (lit ''hash'')\<rparr>]\<rparr>"
    unfolding Let_def b pg tb using l by (simp add: lit_def)
  from parseCommits_hash_validation[OF r2 n2, of sampleDate]
  have h: "Commit.hash sampleCommit = toLowerCase upperHash"
    unfolding Let_def t using parse_goodRecord
    by (simp add: upperHash_def lit_def)
  show ?thesis using r1 r2 n1 n2 e h by blast
qed

definition upperRecord :: jsstring where
  "upperRecord = join FIELD_SEPARATOR (sampleFields upperHash)"

lemma split_upperRecord: "split FIELD_SEPARATOR upperRecord = sampleFields upperHash"
  unfolding upperRecord_def
  by (rule split_join) (simp_all add: sampleFields_def lit_def FIELD_SEPARATOR_def upperHash_def)

lemma trim_upperHash: "trim upperHash = upperHash"
  by (simp add: trim_def upperHash_def lit_def isWhitespace_def)

lemma parse_upperRecord: "parseCommitRecord sampleDate upperRecord = Inr sampleCommit"
  unfolding parseCommitRecord_def split_upperRecord
  by (simp add: sampleFields_def EXPECTED_FIELDS_def trim_upperHash Let_def)
     (simp add: lit_def upperHash_def isValidHash_def isHexAnyCase_def isHexLower_def
        parseParentHashes_def parseDate_def trim_def isWhitespace_def sampleDate_def
        unsafeCommitHash_def toLowerCase_def sampleCommit_def lowerHash_def)

lemma commitRecords_upperRecord:
  "commitRecords (join RECORD_SEPARATOR [upperRecord, []]) = [upperRecord]"
proof -
  have n: "RECORD_SEPARATOR \<notin> set upperRecord"
    by (simp add: upperRecord_def sampleFields_def lit_def FIELD_SEPARATOR_def
        RECORD_SEPARATOR_def upperHash_def)
  have s: "split RECORD_SEPARATOR (join RECORD_SEPARATOR [upperRecord, []]) = [upperRecord, []]"
    by (rule split_join) (simp_all add: n)
  have b: "0 < length (trim upperRecord)"
    by (rule trim_nonblank[of 65])
       (simp_all add: upperRecord_def sampleFields_def lit_def isWhitespace_def upperHash_def)
  show ?thesis
    unfolding commitRecords_def s using b by (simp add: trim_def)
qed

text \<open>
  Claim C1 as stated fails: a record whose hash field is forty upper-case hexadecimal
  digits, which is not a lower-case hash (\<^verbatim>\<open>isCommitHash\<close> rejects it), is accepted
  and produces no error.
\<close>

theorem parseCommits_uppercase_hash_counterexample:
  "hd (split FIELD_SEPARATOR upperRecord) = upperHash \<and>
   \<not> isCommitHash upperHash \<and>
   parseCommits sampleDate (join RECORD_SEPARATOR [upperRecord, []]) =
     \<lparr>ParseCommitsResult.commits = [sampleCommit], errors = []\<rparr>"
proof -
  have "\<not> isCommitHash upperHash"
    by (simp add: isCommitHash_def upperHash_def lit_def isHexLower_def)
  moreover have "hd (split FIELD_SEPARATOR upperRecord) = upperHash"
    by (simp add: split_upperRecord sampleFields_def)
  moreover have "parseCommits sampleDate (join RECORD_SEPARATOR [upperRecord, []]) =
     \<lparr>ParseCommitsResult.commits = [sampleCommit], errors = []\<rparr>"
    unfolding parseCommits_records commitRecords_upperRecord
    by (simp add: parse_upperRecord)
  ultimately show ?thesis by blast
qed

section \<open>Properties of the layout utilities\<close>

subsection \<open>Example commits and edges\<close>

definition sampleVisualCommit :: "int \<Rightarrow> int \<Rightarrow> VisualCommit" where
  "sampleVisualCommit r l =
     \<lparr>hash = [], row = r, lane = l, isMerge = False, isBranchTip = False, isRoot = False,
      isHead = False, refs = [], edgeIds = []\<rparr>"

definition sampleEdge :: "int \<Rightarrow> int \<Rightarrow> int \<Rightarrow> int \<Rightarrow> VisualEdge" where
  "sampleEdge r1 l1 r2 l2 =
     \<lparr>edgeId = [], fromHash = [], toHash = [], fromRow = r1, fromLane = l1,
      toRow = r2, toLane = l2, type = straight, parentIndex = 0\<rparr>"

lemma sampleEdge_sel:
  "fromRow (sampleEdge r1 l1 r2 l2) = r1" "toRow (sampleEdge r1 l1 r2 l2) = r2"
  "fromLane (sampleEdge r1 l1 r2 l2) = l1" "toLane (sampleEdge r1 l1 r2 l2) = l2"
  by (simp_all add: sampleEdge_def)

subsection \<open>Bounding box\<close>

lemma Min_insert_min:
  "finite S \<Longrightarrow> Min (insert (min a b) S) = Min (insert a (insert b S))" for a :: int
  by (cases "S = {}") (simp_all add: min.assoc)

lemma Max_insert_max:
  "finite S \<Longrightarrow> Max (insert (max a b) S) = Max (insert a (insert b S))" for a :: int
  by (cases "S = {}") (simp_all add: max.assoc)

lemma foldl_boxCommit:
  "foldl boxCommit \<lparr>minRow = Num a, maxRow = Num b, minLane = Num c, maxLane = Num d\<rparr> cs =
     \<lparr>minRow = Num (Min (insert a (row ` set cs))),
      maxRow = Num (Max (insert b (row ` set cs))),
      minLane = Num (Min (insert c (lane ` set cs))),
      maxLane = Num (Max (insert d (lane ` set cs)))\<rparr>"
proof (induction cs arbitrary: a b c d)
  case Nil
  show ?case by simp
next
  case (Cons x xs)
  have step: "boxCommit \<lparr>minRow = Num a, maxRow = Num b, minLane = Num c, maxLane = Num d\<rparr> x =
      \<lparr>minRow = Num (min a (row x)), maxRow = Num (max b (row x)),
       minLane = Num (min c (lane x)), maxLane = Num (max d (lane x))\<rparr>"
    by (simp add: boxCommit_def)
  show ?case
    unfolding foldl_Cons step Cons.IH
    by (simp add: Min_insert_min Max_insert_max del: Min_insert Max_insert)
qed

lemma foldl_boxEdge:
  "foldl boxEdge \<lparr>minRow = r1, maxRow = r2, minLane = Num c, maxLane = Num d\<rparr> es =
     \<lparr>minRow = r1, maxRow = r2,
      minLane = Num (Min (insert c (fromLane ` set es \<union> toLane ` set es))),
      maxLane = Num (Max (insert d (fromLane ` set es \<union> toLane ` set es)))\<rparr>"
proof (induction es arbitrary: c d)
  case Nil
  show ?case by simp
next
  case (Cons x xs)
  have fin: "finite (fromLane ` set xs \<union> toLane ` set xs)" by simp
  have mn: "Min (insert (min (min c (fromLane x)) (toLane x)) (fromLane ` set xs \<union> toLane ` set xs)) =
            Min (insert c (insert (fromLane x) (insert (toLane x) (fromLane ` set xs \<union> toLane ` set xs))))"
    using fin by (cases "fromLane ` set xs \<union> toLane ` set xs = {}")
      (simp_all add: min.assoc del: Un_insert_left Un_insert_right image_is_empty Un_empty)
  have mx: "Max (insert (max (max d (fromLane x)) (toLane x)) (fromLane ` set xs \<union> toLane ` set xs)) =
            Max (insert d (insert (fromLane x) (insert (toLane x) (fromLane ` set xs \<union> toLane ` set xs))))"
    using fin by (cases "fromLane ` set xs \<union> toLane ` set xs = {}")
      (simp_all add: max.assoc del: Un_insert_left Un_insert_right image_is_empty Un_empty)
  have reorder: "insert (fromLane x) (fromLane ` set xs) \<union> insert (toLane x) (toLane ` set xs) =
     insert (fromLane x) (insert (toLane x) (fromLane ` set xs \<union> toLane ` set xs))"
    by auto
  have step: "boxEdge \<lparr>minRow = r1, maxRow = r2, minLane = Num c, maxLane = Num d\<rparr> x =
      \<lparr>minRow = r1, maxRow = r2,
       minLane = Num (min (min c (fromLane x)) (toLane x)),
       maxLane = Num (max (max d (fromLane x)) (toLane x))\<rparr>"
    by (simp add: boxEdge_def)
  show ?case
    unfolding foldl_Cons step Cons.IH
    by (simp add: mn mx reorder del: Min_insert Max_insert Un_insert_left Un_insert_right)
qed

text \<open>
  Claim C5, as the code has it. With no commits the box is all zero, whatever the edges
  are. Otherwise the row bounds are the least and greatest row of the commits alone, and
  the lane bounds are the least and greatest lane among the commits' lanes and both
  endpoints' lanes of every edge.
\<close>

theorem getBoundingBox_bounds:
  "getBoundingBox [] es = \<lparr>minRow = Num 0, maxRow = Num 0, minLane = Num 0, maxLane = Num 0\<rparr> \<and>
   (cs \<noteq> [] \<longrightarrow>
      getBoundingBox cs es =
        \<lparr>minRow = Num (Min (row ` set cs)),
         maxRow = Num (Max (row ` set cs)),
         minLane = Num (Min (lane ` set cs \<union> fromLane ` set es \<union> toLane ` set es)),
         maxLane = Num (Max (lane ` set cs \<union> fromLane ` set es \<union> toLane ` set es))\<rparr>)"
proof (intro conjI impI)
  show "getBoundingBox [] es = \<lparr>minRow = Num 0, maxRow = Num 0, minLane = Num 0, maxLane = Num 0\<rparr>"
    by (simp add: getBoundingBox_def)
next
  assume "cs \<noteq> []"
  then obtain x xs where cs: "cs = x # xs" by (cases cs) auto
  have first: "boxCommit \<lparr>minRow = Infinity, maxRow = NegInfinity,
                 minLane = Infinity, maxLane = NegInfinity\<rparr> x =
     \<lparr>minRow = Num (row x), maxRow = Num (row x), minLane = Num (lane x), maxLane = Num (lane x)\<rparr>"
    by (simp add: boxCommit_def)
  have lanes: "insert (lane x) (lane ` set xs) \<union> fromLane ` set es \<union> toLane ` set es =
      insert (lane x) (lane ` set xs \<union> (fromLane ` set es \<union> toLane ` set es))" by auto
  have fin: "finite (lane ` set xs)" "finite (fromLane ` set es \<union> toLane ` set es)" by simp_all
  have mn: "Min (insert (Min (insert (lane x) (lane ` set xs))) (fromLane ` set es \<union> toLane ` set es)) =
            Min (insert (lane x) (lane ` set xs \<union> (fromLane ` set es \<union> toLane ` set es)))"
    using fin
    by (cases "lane ` set xs = {}"; cases "fromLane ` set es \<union> toLane ` set es = {}")
       (simp_all add: Min_Un min.assoc del: Un_insert_left Un_insert_right image_is_empty Un_empty)
  have mx: "Max (insert (Max (insert (lane x) (lane ` set xs))) (fromLane ` set es \<union> toLane ` set es)) =
            Max (insert (lane x) (lane ` set xs \<union> (fromLane ` set es \<union> toLane ` set es)))"
    using fin
    by (cases "lane ` set xs = {}"; cases "fromLane ` set es \<union> toLane ` set es = {}")
       (simp_all add: Max_Un max.assoc del: Un_insert_left Un_insert_right image_is_empty Un_empty)
  show "getBoundingBox cs es =
        \<lparr>minRow = Num (Min (row ` set cs)),
         maxRow = Num (Max (row ` set cs)),
         minLane = Num (Min (lane ` set cs \<union> fromLane ` set es \<union> toLane ` set es)),
         maxLane = Num (Max (lane ` set cs \<union> fromLane ` set es \<union> toLane ` set es))\<rparr>"
    unfolding getBoundingBox_def cs
    by (simp add: first foldl_boxCommit foldl_boxEdge lanes mn mx
          del: Un_insert_left Un_insert_right Min_insert Max_insert)
qed

theorem getBoundingBox_bounds_witness:
  "[sampleVisualCommit 0 1, sampleVisualCommit 2 0] \<noteq> [] \<and>
   getBoundingBox [sampleVisualCommit 0 1, sampleVisualCommit 2 0] [sampleEdge 2 0 7 3] =
     \<lparr>minRow = Num 0, maxRow = Num 2, minLane = Num 0, maxLane = Num 3\<rparr>"
  using getBoundingBox_bounds[of "[sampleEdge 2 0 7 3]"
          "[sampleVisualCommit 0 1, sampleVisualCommit 2 0]"]
  by (simp add: sampleVisualCommit_def sampleEdge_def)

text \<open>
  Claim C5 as stated fails: the rows of an edge do not enter the row bounds. One commit
  at row 0 and an edge from row 0 to row 5 give the greatest row 0, not 5.
\<close>

theorem getBoundingBox_edge_rows_counterexample:
  "maxRow (getBoundingBox [sampleVisualCommit 0 0] [sampleEdge 0 0 5 0]) = Num 0 \<and>
   Max (row ` set [sampleVisualCommit 0 0] \<union> fromRow ` set [sampleEdge 0 0 5 0]
          \<union> toRow ` set [sampleEdge 0 0 5 0]) = 5"
  by (simp add: getBoundingBox_def boxCommit_def boxEdge_def sampleVisualCommit_def sampleEdge_def)

subsection \<open>Edge crossings\<close>

lemma cross_logic:
  fixes a b c d p q r s d1 d2 :: int
  shows "(if a \<le> b \<or> c \<le> d then False
          else if d1 = 0 \<or> d2 = 0 then False
          else if p \<le> q \<or> r \<le> s then False
          else (d1 > 0) \<noteq> (d2 > 0)) \<longleftrightarrow>
         ((b < a \<and> d < c) \<and> (q < p \<and> s < r) \<and>
          ((0 < d1 \<and> d2 < 0) \<or> (d1 < 0 \<and> 0 < d2)))"
  by auto

lemma edgesCross_char:
  "edgesCross e1 e2 \<longleftrightarrow>
      (max (fromRow e1) (toRow e1) > min (fromRow e2) (toRow e2) \<and>
       max (fromRow e2) (toRow e2) > min (fromRow e1) (toRow e1)) \<and>
      (max (fromLane e1) (toLane e1) > min (fromLane e2) (toLane e2) \<and>
       max (fromLane e2) (toLane e2) > min (fromLane e1) (toLane e1)) \<and>
      ((toLane e1 - fromLane e1 > 0 \<and> toLane e2 - fromLane e2 < 0) \<or>
       (toLane e1 - fromLane e1 < 0 \<and> toLane e2 - fromLane e2 > 0))"
  unfolding edgesCross_def Let_def by (rule cross_logic)

lemma edgesCross_vertical:
  assumes "fromLane e1 = toLane e1 \<or> fromLane e2 = toLane e2"
  shows "\<not> edgesCross e1 e2"
proof -
  from assms have "\<not> ((toLane e1 - fromLane e1 > 0 \<and> toLane e2 - fromLane e2 < 0) \<or>
       (toLane e1 - fromLane e1 < 0 \<and> toLane e2 - fromLane e2 > 0))"
    by auto
  then show ?thesis unfolding edgesCross_char by blast
qed

lemma edgesCross_both_horizontal:
  assumes "fromRow e1 = toRow e1" "fromRow e2 = toRow e2"
  shows "\<not> edgesCross e1 e2"
proof -
  from assms have "\<not> (max (fromRow e1) (toRow e1) > min (fromRow e2) (toRow e2) \<and>
       max (fromRow e2) (toRow e2) > min (fromRow e1) (toRow e1))"
    by simp
  then show ?thesis unfolding edgesCross_char by blast
qed

lemma edgesCross_horizontal1:
  "fromRow e1 = toRow e1 \<Longrightarrow> edgesCross e1 e2 \<Longrightarrow>
   min (fromRow e2) (toRow e2) < fromRow e1 \<and> fromRow e1 < max (fromRow e2) (toRow e2)"
  unfolding edgesCross_char by (simp only: min.idem max.idem)

lemma edgesCross_horizontal2:
  "fromRow e2 = toRow e2 \<Longrightarrow> edgesCross e1 e2 \<Longrightarrow>
   min (fromRow e1) (toRow e1) < fromRow e2 \<and> fromRow e2 < max (fromRow e1) (toRow e1)"
  unfolding edgesCross_char by (simp only: min.idem max.idem)

text \<open>
  Claim C7, as the code has it. \<^verbatim>\<open>edgesCross\<close> reports a crossing exactly when the row
  spans overlap strictly, the lane spans overlap strictly, and one edge leans right while
  the other leans left. A pair in which either edge has zero lane span never crosses, nor
  does a pair in which both edges have zero row span. An edge of zero row span is reported
  as crossing only an edge whose rows lie strictly on both sides of its row.
\<close>

theorem edgesCross_iff:
  "(edgesCross e1 e2 \<longleftrightarrow>
      (max (fromRow e1) (toRow e1) > min (fromRow e2) (toRow e2) \<and>
       max (fromRow e2) (toRow e2) > min (fromRow e1) (toRow e1)) \<and>
      (max (fromLane e1) (toLane e1) > min (fromLane e2) (toLane e2) \<and>
       max (fromLane e2) (toLane e2) > min (fromLane e1) (toLane e1)) \<and>
      ((toLane e1 - fromLane e1 > 0 \<and> toLane e2 - fromLane e2 < 0) \<or>
       (toLane e1 - fromLane e1 < 0 \<and> toLane e2 - fromLane e2 > 0))) \<and>
   (fromLane e1 = toLane e1 \<or> fromLane e2 = toLane e2 \<longrightarrow> \<not> edgesCross e1 e2) \<and>
   (fromRow e1 = toRow e1 \<and> fromRow e2 = toRow e2 \<longrightarrow> \<not> edgesCross e1 e2) \<and>
   (fromRow e1 = toRow e1 \<and> edgesCross e1 e2 \<longrightarrow>
      min (fromRow e2) (toRow e2) < fromRow e1 \<and> fromRow e1 < max (fromRow e2) (toRow e2)) \<and>
   (fromRow e2 = toRow e2 \<and> edgesCross e1 e2 \<longrightarrow>
      min (fromRow e1) (toRow e1) < fromRow e2 \<and> fromRow e2 < max (fromRow e1) (toRow e1))"
  using edgesCross_char[of e1 e2] edgesCross_vertical[of e1 e2]
    edgesCross_both_horizontal[of e1 e2] edgesCross_horizontal1[of e1 e2]
    edgesCross_horizontal2[where ?e1.0=e1 and ?e2.0=e2]
  by blast

theorem edgesCross_iff_witness:
  "edgesCross (sampleEdge 0 0 2 2) (sampleEdge 0 2 2 0) \<and>
   \<not> edgesCross (sampleEdge 0 1 2 1) (sampleEdge 0 2 2 0) \<and>
   \<not> edgesCross (sampleEdge 1 0 1 2) (sampleEdge 1 2 1 0) \<and>
   (edgesCross (sampleEdge 1 0 1 2) (sampleEdge 0 2 2 0) \<and> (0::int) < 1 \<and> (1::int) < 2)"
proof -
  have a: "edgesCross (sampleEdge 0 0 2 2) (sampleEdge 0 2 2 0)"
    using edgesCross_iff[of "sampleEdge 0 0 2 2" "sampleEdge 0 2 2 0"]
    by (simp add: sampleEdge_sel)
  have b: "\<not> edgesCross (sampleEdge 0 1 2 1) (sampleEdge 0 2 2 0)"
    using edgesCross_iff[of "sampleEdge 0 1 2 1" "sampleEdge 0 2 2 0"]
    by (simp add: sampleEdge_sel)
  have c: "\<not> edgesCross (sampleEdge 1 0 1 2) (sampleEdge 1 2 1 0)"
    using edgesCross_iff[of "sampleEdge 1 0 1 2" "sampleEdge 1 2 1 0"]
    by (simp add: sampleEdge_sel)
  have d: "edgesCross (sampleEdge 1 0 1 2) (sampleEdge 0 2 2 0)"
    using edgesCross_iff[of "sampleEdge 1 0 1 2" "sampleEdge 0 2 2 0"]
    by (simp add: sampleEdge_sel)
  show ?thesis using a b c d by simp
qed

text \<open>
  Claim C7 as stated fails: an edge of zero row span (row 1, lanes 0 to 2) and an edge
  from row 0, lane 2 to row 2, lane 0 are reported as crossing.
\<close>

theorem edgesCross_horizontal_counterexample:
  "fromRow (sampleEdge 1 0 1 2) = toRow (sampleEdge 1 0 1 2) \<and>
   edgesCross (sampleEdge 1 0 1 2) (sampleEdge 0 2 2 0)"
  by (simp add: edgesCross_def sampleEdge_sel)

section \<open>Properties of protected-branch matching\<close>

text \<open>
  The glob of the specification: each \<^verbatim>\<open>*\<close> of the pattern stands for any run of
  characters, every other character for itself, and the whole name must be matched.
\<close>

fun specGlobMatches :: "jsstring \<Rightarrow> jsstring \<Rightarrow> bool" where
  "specGlobMatches [] s = (s = [])"
| "specGlobMatches (p # ps) s =
     (if p = 42 then
        specGlobMatches ps s \<or> (case s of [] \<Rightarrow> False | c # cs \<Rightarrow> specGlobMatches (p # ps) cs)
      else (case s of [] \<Rightarrow> False | c # cs \<Rightarrow> c = p \<and> specGlobMatches ps cs))"

lemma regExp_optional:
  "regExp (lit ''^'' @ replaceStars (escapeSpecials (lit ''ab?'')) @ lit ''$'') =
     Inr [(Chr 97, Once), (Chr 98, Optional)]"
  by (simp add: lit_def regExp_def replaceStars_def escapeSpecials_def parseAtom_def
        parseQuantifier_def skipLazy_def isSyntaxCharacter_def)

text \<open>
  Claim C8 at a pattern with a question mark. The source escapes the regular-expression
  characters \<^verbatim>\<open>. + ^ $ { } ( ) | [ ] \\<close> but not \<^verbatim>\<open>?\<close>, so the pattern \<^verbatim>\<open>ab?\<close>
  becomes the expression \<^verbatim>\<open>^ab?$\<close>, in which the \<^verbatim>\<open>b\<close> is optional: the name
  \<^verbatim>\<open>a\<close> is marked protected, although it does not match the pattern read as a glob.
\<close>

theorem matchesProtectedPattern_question_mark:
  "matchesProtectedPattern (lit ''a'') [lit ''ab?''] = Inr True \<and>
   matchGlob (lit ''a'') (lit ''ab?'') = Inr True \<and>
   \<not> specGlobMatches (lit ''ab?'') (lit ''a'')"
proof -
  have ne: "lit ''ab?'' \<noteq> lit ''a''" by (simp add: lit_def)
  have m: "matchTerms [(Chr 97, Once), (Chr 98, Optional)] (lit ''a'')"
    by (simp add: lit_def)
  have s: "\<not> specGlobMatches (lit ''ab?'') (lit ''a'')"
    by (simp add: lit_def)
  show ?thesis
    using ne m s by (simp add: matchGlob_def regExp_optional Let_def)
qed

text \<open>A pattern that starts with a question mark makes the constructor throw.\<close>

lemma regExp_nothing_to_repeat:
  "regExp (lit ''^'' @ replaceStars (escapeSpecials (lit ''?'')) @ lit ''$'') = Inl SyntaxError"
  by (simp add: lit_def regExp_def replaceStars_def escapeSpecials_def parseAtom_def)

section \<open>Properties of the traversal\<close>

text \<open>
  The parent relation recorded by the loaded commits: \<open>(h, p)\<close> when \<open>h\<close> is a loaded
  commit and \<open>p\<close> is one of its parents (\<open>p\<close> itself need not be loaded). Its reflexive
  transitive closure from \<open>a\<close> is the set of \<open>a\<close> and its ancestors.
\<close>

definition parentRel :: "RepositoryGraph \<Rightarrow> (jsstring \<times> jsstring) set" where
  "parentRel g =
     {(h, p). \<exists>c. map_of (RepositoryGraph.commits g) h = Some c \<and> p \<in> set (Commit.parents c)}"

text \<open>
  The parents met by a breadth-first search through parents, in the order the search
  meets them: the parents of each commit taken from the queue, with a parent joining the
  queue when it is met for the first time.
\<close>

function bfsParents :: "RepositoryGraph \<Rightarrow> jsstring list \<Rightarrow> jsstring set \<Rightarrow> jsstring list" where
  "bfsParents g [] visited = []"
| "bfsParents g (current # queue) visited =
     (case map_of (RepositoryGraph.commits g) current of
        None \<Rightarrow> bfsParents g queue visited
      | Some commit \<Rightarrow>
          Commit.parents commit @
          (case visitParents (Commit.parents commit) (visited, queue) of
             (visited', queue') \<Rightarrow> bfsParents g queue' visited'))"
  by pat_completeness auto
termination
  by (relation "measure (\<lambda>(g, queue, seen). card (knownParents g - seen) + length queue)")
     (simp_all add: visitParents_decreases)

lemma parentRel_None: "map_of (RepositoryGraph.commits g) h = None \<Longrightarrow> parentRel g `` {h} = {}"
  by (auto simp: parentRel_def)

lemma parentRel_Some:
  "map_of (RepositoryGraph.commits g) h = Some c \<Longrightarrow> parentRel g `` {h} = set (Commit.parents c)"
  by (auto simp: parentRel_def)

lemma visitParents_sets:
  "visitParents ps (seen, queue) = (seen', queue') \<Longrightarrow>
   seen' = seen \<union> set ps \<and> set queue' = set queue \<union> (set ps - seen)"
proof (induction ps arbitrary: seen queue)
  case Nil
  then show ?case by simp
next
  case (Cons p ps)
  show ?case
  proof (cases "p \<in> seen")
    case True
    with Cons.prems Cons.IH[of seen queue] show ?thesis by auto
  next
    case False
    with Cons.prems Cons.IH[of "insert p seen" "queue @ [p]"] show ?thesis by auto
  qed
qed

lemma rtrancl_Image_absorb:
  assumes "B \<subseteq> R\<^sup>* `` A"
  shows "R\<^sup>* `` (A \<union> B) = R\<^sup>* `` A"
proof -
  have "R\<^sup>* `` B \<subseteq> R\<^sup>* `` A"
    using assms by (auto intro: rtrancl_trans)
  then show ?thesis by blast
qed

lemma ancestorsLoop_closure:
  "set queue \<subseteq> seen \<Longrightarrow> parentRel g `` (seen - set queue) \<subseteq> seen \<Longrightarrow>
   ancestorsLoop g queue seen = (parentRel g)\<^sup>* `` seen"
proof (induction g queue seen rule: ancestorsLoop.induct)
  case (1 g seen)
  then have "parentRel g `` seen \<subseteq> seen" by simp
  then show ?case by (simp add: Image_closed_trancl)
next
  case (2 g current queue seen)
  show ?case
  proof (cases "map_of (RepositoryGraph.commits g) current")
    case None
    have "parentRel g `` (seen - set queue) \<subseteq> seen"
      using "2.prems" parentRel_None[OF None] by auto
    with "2.IH"(1)[OF None] "2.prems" None show ?thesis by simp
  next
    case (Some c)
    obtain seen' queue' where v: "visitParents (Commit.parents c) (seen, queue) = (seen', queue')"
      by (cases "visitParents (Commit.parents c) (seen, queue)") auto
    from visitParents_sets[OF v]
    have s: "seen' = seen \<union> set (Commit.parents c)"
      and q: "set queue' = set queue \<union> (set (Commit.parents c) - seen)" by auto
    have cur: "parentRel g `` {current} = set (Commit.parents c)" by (rule parentRel_Some[OF Some])
    have sub: "set queue' \<subseteq> seen'" using s q "2.prems"(1) by auto
    have closed: "parentRel g `` (seen' - set queue') \<subseteq> seen'"
    proof
      fix y assume "y \<in> parentRel g `` (seen' - set queue')"
      then obtain x where x: "x \<in> seen'" "x \<notin> set queue'" "(x, y) \<in> parentRel g" by auto
      from x(1,2) s q have xs: "x \<in> seen" by auto
      show "y \<in> seen'"
      proof (cases "x = current")
        case True
        with x(3) cur have "y \<in> set (Commit.parents c)" by auto
        with s show ?thesis by simp
      next
        case False
        with xs x(2) q have "x \<in> seen - set (current # queue)" by auto
        with x(3) "2.prems"(2) have "y \<in> seen" by auto
        with s show ?thesis by simp
      qed
    qed
    have "current \<in> seen" using "2.prems"(1) by simp
    then have "set (Commit.parents c) \<subseteq> (parentRel g)\<^sup>* `` seen"
      using cur by auto
    then have eq: "(parentRel g)\<^sup>* `` seen' = (parentRel g)\<^sup>* `` seen"
      unfolding s by (rule rtrancl_Image_absorb)
    from "2.IH"(2)[OF Some v[symmetric] sub closed] eq Some v
    show ?thesis by simp
  qed
qed

lemma ancestorsLoop_reachable:
  "ancestorsLoop g [h] {h} = (parentRel g)\<^sup>* `` {h}"
  by (rule ancestorsLoop_closure) simp_all

lemma set_bfsParents:
  "set queue \<subseteq> visited \<Longrightarrow> parentRel g `` (visited - set queue) \<subseteq> visited \<Longrightarrow>
   set (bfsParents g queue visited) =
     parentRel g `` (set queue \<union> ((parentRel g)\<^sup>* `` visited - visited))"
proof (induction g queue visited rule: bfsParents.induct)
  case (1 g visited)
  then have "parentRel g `` visited \<subseteq> visited" by simp
  then have "(parentRel g)\<^sup>* `` visited = visited" by (rule Image_closed_trancl)
  then show ?case by simp
next
  case (2 g current queue visited)
  show ?case
  proof (cases "map_of (RepositoryGraph.commits g) current")
    case None
    have c: "parentRel g `` (visited - set queue) \<subseteq> visited"
      using "2.prems" parentRel_None[OF None] by auto
    have "parentRel g `` (set (current # queue) \<union> ((parentRel g)\<^sup>* `` visited - visited)) =
          parentRel g `` (set queue \<union> ((parentRel g)\<^sup>* `` visited - visited))"
      using parentRel_None[OF None] by auto
    with "2.IH"(1)[OF None _ c] "2.prems"(1) None show ?thesis by simp
  next
    case (Some c)
    obtain visited' queue' where
      v: "visitParents (Commit.parents c) (visited, queue) = (visited', queue')"
      by (cases "visitParents (Commit.parents c) (visited, queue)") auto
    from visitParents_sets[OF v]
    have s: "visited' = visited \<union> set (Commit.parents c)"
      and q: "set queue' = set queue \<union> (set (Commit.parents c) - visited)" by auto
    have cur: "parentRel g `` {current} = set (Commit.parents c)" by (rule parentRel_Some[OF Some])
    have sub: "set queue' \<subseteq> visited'" using s q "2.prems"(1) by auto
    have closed: "parentRel g `` (visited' - set queue') \<subseteq> visited'"
    proof
      fix y assume "y \<in> parentRel g `` (visited' - set queue')"
      then obtain x where x: "x \<in> visited'" "x \<notin> set queue'" "(x, y) \<in> parentRel g" by auto
      from x(1,2) s q have xs: "x \<in> visited" by auto
      show "y \<in> visited'"
      proof (cases "x = current")
        case True
        with x(3) cur have "y \<in> set (Commit.parents c)" by auto
        with s show ?thesis by simp
      next
        case False
        with xs x(2) q have "x \<in> visited - set (current # queue)" by auto
        with x(3) "2.prems"(2) have "y \<in> visited" by auto
        with s show ?thesis by simp
      qed
    qed
    have "current \<in> visited" using "2.prems"(1) by simp
    then have ps: "set (Commit.parents c) \<subseteq> (parentRel g)\<^sup>* `` visited"
      using cur by auto
    then have eq: "(parentRel g)\<^sup>* `` visited' = (parentRel g)\<^sup>* `` visited"
      unfolding s by (rule rtrancl_Image_absorb)
    have sets: "set queue' \<union> ((parentRel g)\<^sup>* `` visited - visited') =
                set queue \<union> ((parentRel g)\<^sup>* `` visited - visited)"
      using s q ps by auto
    have "set (bfsParents g (current # queue) visited) =
          set (Commit.parents c) \<union> set (bfsParents g queue' visited')"
      using Some v by simp
    also have "\<dots> = set (Commit.parents c) \<union>
          parentRel g `` (set queue' \<union> ((parentRel g)\<^sup>* `` visited' - visited'))"
      using "2.IH"(2)[OF Some v[symmetric] sub closed] by simp
    also have "\<dots> = parentRel g `` {current} \<union>
          parentRel g `` (set queue \<union> ((parentRel g)\<^sup>* `` visited - visited))"
      unfolding eq sets cur ..
    also have "\<dots> = parentRel g `` (set (current # queue) \<union>
          ((parentRel g)\<^sup>* `` visited - visited))"
      by auto
    finally show ?thesis .
  qed
qed

lemma set_bfsParents_start:
  "set (bfsParents g [h] {h}) = parentRel g `` ((parentRel g)\<^sup>* `` {h})"
proof -
  have "set (bfsParents g [h] {h}) =
        parentRel g `` (set [h] \<union> ((parentRel g)\<^sup>* `` {h} - {h}))"
    by (rule set_bfsParents) simp_all
  also have "set [h] \<union> ((parentRel g)\<^sup>* `` {h} - {h}) = (parentRel g)\<^sup>* `` {h}"
    by auto
  finally show ?thesis .
qed

lemma scanParents_find:
  "scanParents anc ps st =
     (case List.find (\<lambda>p. p \<in> anc) ps of
        Some p \<Rightarrow> Inl p
      | None \<Rightarrow> Inr (visitParents ps st))"
  by (induction anc ps st rule: scanParents.induct) (auto split: option.splits)

lemma find_append:
  "List.find P (xs @ ys) = (case List.find P xs of Some x \<Rightarrow> Some x | None \<Rightarrow> List.find P ys)"
  by (induction xs) auto

lemma searchLoop_find:
  "searchLoop g anc queue visited = List.find (\<lambda>p. p \<in> anc) (bfsParents g queue visited)"
proof (induction g anc queue visited rule: searchLoop.induct)
  case (1 g anc visited)
  show ?case by simp
next
  case (2 g anc current queue visited)
  show ?case
  proof (cases "map_of (RepositoryGraph.commits g) current")
    case None
    with "2.IH"(1) show ?thesis by simp
  next
    case (Some c)
    show ?thesis
    proof (cases "List.find (\<lambda>p. p \<in> anc) (Commit.parents c)")
      case (Some p)
      then show ?thesis
        using \<open>map_of (RepositoryGraph.commits g) current = Some c\<close>
        by (simp add: scanParents_find find_append)
    next
      case None
      obtain visited' queue' where
        v: "visitParents (Commit.parents c) (visited, queue) = (visited', queue')"
        by (cases "visitParents (Commit.parents c) (visited, queue)") auto
      have sc: "scanParents anc (Commit.parents c) (visited, queue) = Inr (visited', queue')"
        using None v by (simp add: scanParents_find)
      from "2.IH"(2)[OF Some sc refl]
      show ?thesis using Some sc None v by (simp add: find_append)
    qed
  qed
qed

text \<open>
  Claim C4, as the code has it. The ancestors of \<open>a\<close> are the hashes reached by following
  the parent lists of loaded commits from \<open>a\<close>; a hash reached counts also when the commit
  it names is not loaded. \<^verbatim>\<open>findMergeBase\<close> returns \<open>b\<close> when \<open>b\<close> is \<open>a\<close> or
  one of its ancestors; otherwise it returns the first parent met by the breadth-first
  search from \<open>b\<close> that lies among \<open>a\<close> and its ancestors; and it returns null exactly
  when nothing is both \<open>a\<close> or an ancestor of \<open>a\<close> and \<open>b\<close> or an ancestor of \<open>b\<close>.
\<close>

theorem findMergeBase_spec:
  "(b \<in> (parentRel g)\<^sup>* `` {a} \<longrightarrow> findMergeBase g a b = Some b) \<and>
   (b \<notin> (parentRel g)\<^sup>* `` {a} \<longrightarrow>
      findMergeBase g a b =
        List.find (\<lambda>p. p \<in> (parentRel g)\<^sup>* `` {a}) (bfsParents g [b] {b})) \<and>
   (findMergeBase g a b = None \<longleftrightarrow>
      (parentRel g)\<^sup>* `` {a} \<inter> (parentRel g)\<^sup>* `` {b} = {})"
proof -
  define A where "A = (parentRel g)\<^sup>* `` {a}"
  define B where "B = (parentRel g)\<^sup>* `` {b}"
  define L where "L = bfsParents g [b] {b}"
  have unfoldB: "B = {b} \<union> parentRel g `` B"
  proof
    show "B \<subseteq> {b} \<union> parentRel g `` B"
    proof
      fix x assume "x \<in> B"
      then have "(b, x) \<in> (parentRel g)\<^sup>*" by (simp add: B_def)
      then show "x \<in> {b} \<union> parentRel g `` B"
        unfolding B_def by (cases rule: rtranclE) auto
    qed
    show "{b} \<union> parentRel g `` B \<subseteq> B"
      unfolding B_def by (auto intro: rtrancl_into_rtrancl)
  qed
  have setL: "set L = parentRel g `` B"
    unfolding L_def B_def by (rule set_bfsParents_start)
  have in_case: "findMergeBase g a b = Some b" if "b \<in> A"
    using that unfolding findMergeBase_def ancestorsLoop_reachable A_def by simp
  have out_case: "findMergeBase g a b = List.find (\<lambda>p. p \<in> A) L" if "b \<notin> A"
    using that unfolding findMergeBase_def ancestorsLoop_reachable searchLoop_find A_def L_def
    by simp
  have none_iff: "findMergeBase g a b = None \<longleftrightarrow> A \<inter> B = {}"
  proof (cases "b \<in> A")
    case True
    moreover have "b \<in> B" unfolding B_def by simp
    ultimately show ?thesis using in_case by auto
  next
    case False
    have "findMergeBase g a b = None \<longleftrightarrow> (\<forall>p \<in> set L. p \<notin> A)"
      unfolding out_case[OF False] find_None_iff by blast
    also have "\<dots> \<longleftrightarrow> A \<inter> parentRel g `` B = {}"
      unfolding setL by blast
    also have "\<dots> \<longleftrightarrow> A \<inter> B = {}"
    proof -
      have "A \<inter> B = A \<inter> ({b} \<union> parentRel g `` B)" using unfoldB by simp
      also have "\<dots> = A \<inter> parentRel g `` B" using False by blast
      finally show ?thesis by simp
    qed
    finally show ?thesis .
  qed
  show ?thesis
    using in_case out_case none_iff unfolding A_def B_def L_def by blast
qed

subsection \<open>Example history\<close>

text \<open>
  Commits as the test suite's \<^verbatim>\<open>makeCommit\<close> builds them (hashes padded to forty
  characters with \<^verbatim>\<open>0\<close>), and the history \<open>a\<close>, \<open>b\<close> and \<open>c\<close> on \<open>a\<close>, and an
  unrelated root \<open>d\<close>.
\<close>

definition testHash :: "string \<Rightarrow> jsstring" where
  "testHash s = lit s @ replicate (40 - length s) 48"

definition testCommit :: "string \<Rightarrow> string list \<Rightarrow> Commit" where
  "testCommit h ps =
     \<lparr>Commit.hash = testHash h, parents = map testHash ps,
      author = \<lparr>GitIdentity.name = lit ''Test'', email = lit ''test@test.com''\<rparr>,
      committer = \<lparr>GitIdentity.name = lit ''Test'', email = lit ''test@test.com''\<rparr>,
      authoredAt = 0, committedAt = 0, subject = lit ''Test commit'', body = []\<rparr>"

definition forkGraph :: RepositoryGraph where
  "forkGraph =
     buildGraph [testCommit ''a'' [], testCommit ''b'' [''a''], testCommit ''c'' [''a''],
                 testCommit ''d'' []] [] (Some (testHash ''c'')) None"

lemma testHash_inj [simp]:
  "testHash ''a'' \<noteq> testHash ''b''" "testHash ''a'' \<noteq> testHash ''c''" "testHash ''a'' \<noteq> testHash ''d''"
  "testHash ''b'' \<noteq> testHash ''a''" "testHash ''b'' \<noteq> testHash ''c''" "testHash ''b'' \<noteq> testHash ''d''"
  "testHash ''c'' \<noteq> testHash ''a''" "testHash ''c'' \<noteq> testHash ''b''" "testHash ''c'' \<noteq> testHash ''d''"
  "testHash ''d'' \<noteq> testHash ''a''" "testHash ''d'' \<noteq> testHash ''b''" "testHash ''d'' \<noteq> testHash ''c''"
  by (simp_all add: testHash_def lit_def)

lemma forkGraph_commits:
  "RepositoryGraph.commits forkGraph =
     [(testHash ''a'', testCommit ''a'' []), (testHash ''b'', testCommit ''b'' [''a'']),
      (testHash ''c'', testCommit ''c'' [''a'']), (testHash ''d'', testCommit ''d'' [])]"
  by (simp add: forkGraph_def buildGraph_def Let_def testCommit_def)

lemma testCommit_parents [simp]: "Commit.parents (testCommit h ps) = map testHash ps"
  by (simp add: testCommit_def)

lemma forkGraph_anc_b:
  "ancestorsLoop forkGraph [testHash ''b''] {testHash ''b''} = {testHash ''a'', testHash ''b''}"
  by (simp add: forkGraph_commits) 

lemma forkGraph_anc_c:
  "ancestorsLoop forkGraph [testHash ''c''] {testHash ''c''} = {testHash ''a'', testHash ''c''}"
  by (simp add: forkGraph_commits) 

lemma forkGraph_anc_a:
  "ancestorsLoop forkGraph [testHash ''a''] {testHash ''a''} = {testHash ''a''}"
  by (simp add: forkGraph_commits)

lemma forkGraph_anc_d:
  "ancestorsLoop forkGraph [testHash ''d''] {testHash ''d''} = {testHash ''d''}"
  by (simp add: forkGraph_commits)

lemma forkGraph_bfs_c:
  "bfsParents forkGraph [testHash ''c''] {testHash ''c''} = [testHash ''a'']"
  by (simp add: forkGraph_commits)

text \<open>The theorem on the example: an ancestor, a fork, and two unrelated roots.\<close>

theorem findMergeBase_spec_witness:
  "findMergeBase forkGraph (testHash ''c'') (testHash ''a'') = Some (testHash ''a'') \<and>
   findMergeBase forkGraph (testHash ''b'') (testHash ''c'') = Some (testHash ''a'') \<and>
   findMergeBase forkGraph (testHash ''a'') (testHash ''d'') = None"
proof -
  have 1: "findMergeBase forkGraph (testHash ''c'') (testHash ''a'') = Some (testHash ''a'')"
    using findMergeBase_spec[of "testHash ''a''" forkGraph "testHash ''c''"]
    unfolding ancestorsLoop_reachable[symmetric] forkGraph_anc_c by simp
  have 2: "findMergeBase forkGraph (testHash ''b'') (testHash ''c'') = Some (testHash ''a'')"
    using findMergeBase_spec[of "testHash ''c''" forkGraph "testHash ''b''"]
    unfolding ancestorsLoop_reachable[symmetric] forkGraph_anc_b forkGraph_bfs_c by simp
  have 3: "findMergeBase forkGraph (testHash ''a'') (testHash ''d'') = None"
    using findMergeBase_spec[THEN conjunct2, THEN conjunct2, of forkGraph "testHash ''a''" "testHash ''d''"]
    unfolding ancestorsLoop_reachable[symmetric] forkGraph_anc_a forkGraph_anc_d by simp
  show ?thesis using 1 2 3 by simp
qed

text \<open>
  Claim C4 as stated fails: ancestors are not confined to the loaded commits. Two loaded
  commits \<open>b\<close> and \<open>c\<close> whose parent \<open>a\<close> is not loaded have no loaded commit in common among
  themselves and their ancestors, and \<^verbatim>\<open>findMergeBase\<close> returns \<open>a\<close>, not null.
\<close>

definition shallowGraph :: RepositoryGraph where
  "shallowGraph =
     buildGraph [testCommit ''b'' [''a''], testCommit ''c'' [''a'']] [] None None"

lemma shallowGraph_commits:
  "RepositoryGraph.commits shallowGraph =
     [(testHash ''b'', testCommit ''b'' [''a'']), (testHash ''c'', testCommit ''c'' [''a''])]"
  by (simp add: shallowGraph_def buildGraph_def Let_def testCommit_def)

lemma shallowGraph_anc:
  "ancestorsLoop shallowGraph [testHash ''b''] {testHash ''b''} = {testHash ''a'', testHash ''b''}"
  "ancestorsLoop shallowGraph [testHash ''c''] {testHash ''c''} = {testHash ''a'', testHash ''c''}"
  by (simp_all add: shallowGraph_commits)

theorem findMergeBase_unloaded_counterexample:
  "map fst (RepositoryGraph.commits shallowGraph) = [testHash ''b'', testHash ''c''] \<and>
   ancestorsLoop shallowGraph [testHash ''b''] {testHash ''b''} = {testHash ''a'', testHash ''b''} \<and>
   ancestorsLoop shallowGraph [testHash ''c''] {testHash ''c''} = {testHash ''a'', testHash ''c''} \<and>
   ancestorsLoop shallowGraph [testHash ''b''] {testHash ''b''} \<inter>
     ancestorsLoop shallowGraph [testHash ''c''] {testHash ''c''} \<inter>
     set (map fst (RepositoryGraph.commits shallowGraph)) = {} \<and>
   findMergeBase shallowGraph (testHash ''b'') (testHash ''c'') = Some (testHash ''a'')"
proof -
  have k: "map fst (RepositoryGraph.commits shallowGraph) = [testHash ''b'', testHash ''c'']"
    by (simp add: shallowGraph_commits)
  have i: "ancestorsLoop shallowGraph [testHash ''b''] {testHash ''b''} \<inter>
     ancestorsLoop shallowGraph [testHash ''c''] {testHash ''c''} \<inter>
     set (map fst (RepositoryGraph.commits shallowGraph)) = {}"
    unfolding shallowGraph_anc k by simp
  have f: "findMergeBase shallowGraph (testHash ''b'') (testHash ''c'') = Some (testHash ''a'')"
    unfolding findMergeBase_def shallowGraph_anc by (simp add: shallowGraph_commits)
  show ?thesis using k shallowGraph_anc i f by simp
qed

section \<open>Properties of the lane assignment\<close>

text \<open>The edge the parent loop builds for parent \<open>p\<close> at index \<open>i\<close>, given the lane
  \<open>pl\<close> the parent ends up with.\<close>

definition mkEdge :: "jsstring \<Rightarrow> int \<Rightarrow> int \<Rightarrow> nat \<Rightarrow> nat \<Rightarrow> jsstring \<Rightarrow> int \<Rightarrow> VisualEdge" where
  "mkEdge h r ln n i p pl =
     \<lparr>edgeId = h @ lit ''-'' @ p @ lit ''-'' @ dec i, fromHash = h, toHash = p, fromRow = r,
      fromLane = ln, toRow = -1, toLane = pl,
      type = (if n > 1 \<and> i > 0 then merge else if ln \<noteq> pl then fork else straight),
      parentIndex = i\<rparr>"

lemma mkEdge_sel [simp]:
  "edgeId (mkEdge h r ln n i p pl) = h @ lit ''-'' @ p @ lit ''-'' @ dec i"
  "fromHash (mkEdge h r ln n i p pl) = h"
  "toHash (mkEdge h r ln n i p pl) = p"
  "fromRow (mkEdge h r ln n i p pl) = r"
  "fromLane (mkEdge h r ln n i p pl) = ln"
  "toRow (mkEdge h r ln n i p pl) = -1"
  "toLane (mkEdge h r ln n i p pl) = pl"
  "VisualEdge.type (mkEdge h r ln n i p pl) =
     (if n > 1 \<and> i > 0 then merge else if ln \<noteq> pl then fork else straight)"
  "parentIndex (mkEdge h r ln n i p pl) = i"
  by (simp_all add: mkEdge_def)

lemma parentsLoop_step:
  "\<exists>st' pl. parentsLoop h r ln n i (p # rest) (st, es, ids, m) =
      parentsLoop h r ln n (Suc i) rest
        (st', es @ [mkEdge h r ln n i p pl], ids @ [h @ lit ''-'' @ p @ lit ''-'' @ dec i],
         AList.update (h @ lit ''-'' @ p @ lit ''-'' @ dec i) (mkEdge h r ln n i p pl) m)"
proof (cases "map_of (laneByCommit st) p")
  case (Some l)
  show ?thesis
    by (rule exI[of _ st], rule exI[of _ l]) (simp add: Some Let_def mkEdge_def)
next
  case None
  show ?thesis
  proof (cases "i = 0")
    case True
    show ?thesis
      by (rule exI[of _ "st\<lparr>laneByCommit := AList.update p ln (laneByCommit st)\<rparr>"],
          rule exI[of _ ln])
         (simp add: None True Let_def mkEdge_def)
  next
    case False
    obtain l s where a: "allocateLane st = (l, s)" by (cases "allocateLane st") auto
    show ?thesis
      by (rule exI[of _ "s\<lparr>laneByCommit := AList.update p l (laneByCommit s)\<rparr>"],
          rule exI[of _ l])
         (simp add: None False a Let_def mkEdge_def)
  qed
qed

lemma parentsLoop_edges:
  "parentsLoop h r ln n i ps (st, es, ids, m) = (st', es', ids', m') \<Longrightarrow>
   \<exists>pls. length pls = length ps \<and>
         es' = es @ map (\<lambda>j. mkEdge h r ln n (i + j) (ps ! j) (pls ! j)) [0..<length ps]"
proof (induction ps arbitrary: i st es ids m)
  case Nil
  then show ?case by simp
next
  case (Cons p rest)
  obtain st1 pl where step:
    "parentsLoop h r ln n i (p # rest) (st, es, ids, m) =
      parentsLoop h r ln n (Suc i) rest
        (st1, es @ [mkEdge h r ln n i p pl], ids @ [h @ lit ''-'' @ p @ lit ''-'' @ dec i],
         AList.update (h @ lit ''-'' @ p @ lit ''-'' @ dec i) (mkEdge h r ln n i p pl) m)"
    using parentsLoop_step by blast
  from Cons.prems step obtain pls where
    pls: "length pls = length rest"
    "es' = (es @ [mkEdge h r ln n i p pl]) @
           map (\<lambda>j. mkEdge h r ln n (Suc i + j) (rest ! j) (pls ! j)) [0..<length rest]"
    using Cons.IH[of "Suc i" st1 "es @ [mkEdge h r ln n i p pl]" "ids @ [h @ lit ''-'' @ p @ lit ''-'' @ dec i]" "AList.update (h @ lit ''-'' @ p @ lit ''-'' @ dec i) (mkEdge h r ln n i p pl) m"] by auto
  have "map (\<lambda>j. mkEdge h r ln n (i + j) ((p # rest) ! j) ((pl # pls) ! j)) [0..<length (p # rest)] =
        mkEdge h r ln n i p pl #
        map (\<lambda>j. mkEdge h r ln n (Suc i + j) (rest ! j) (pls ! j)) [0..<length rest]"
    by (simp add: upt_conv_Cons map_Suc_upt[symmetric] del: upt_Suc)
  with pls show ?case
    by (intro exI[of _ "pl # pls"]) simp
qed


lemma layoutCommit_result:
  assumes "layoutCommit g opts r h c (st, vg) = Inr (st', vg')"
  shows "\<exists>ln pls vc.
           length pls = length (Commit.parents c) \<and>
           edges vg' = edges vg @
             map (\<lambda>j. mkEdge h r ln (length (Commit.parents c)) j (Commit.parents c ! j) (pls ! j))
               [0..<length (Commit.parents c)] \<and>
           commits vg' = commits vg @ [vc] \<and>
           hash vc = h \<and> row vc = r \<and> lane vc = ln \<and>
           commitByHash vg' = AList.update h vc (commitByHash vg)"
proof -
  obtain ln st1 where a:
    "(case map_of (laneByCommit st) h of Some l \<Rightarrow> (l, st) | None \<Rightarrow> allocateLane st) = (ln, st1)"
    by (cases "case map_of (laneByCommit st) h of Some l \<Rightarrow> (l, st) | None \<Rightarrow> allocateLane st") auto
  define refsAt where
    "refsAt = (case map_of (refsByCommit g) h of None \<Rightarrow> [] | Some rs \<Rightarrow> rs)"
  obtain vrefs where vr: "toVisualRefs refsAt opts = Inr vrefs"
    using assms unfolding layoutCommit_def refsAt_def
    by (cases "toVisualRefs (case map_of (refsByCommit g) h of None \<Rightarrow> [] | Some rs \<Rightarrow> rs) opts")
       (simp_all add: a Let_def)
  obtain st3 es ids byId where pl:
    "parentsLoop h r ln (length (Commit.parents c)) 0 (Commit.parents c)
       (st1\<lparr>activeLanes := AList.update ln h (activeLanes st1)\<rparr>, edges vg, [], edgeById vg) =
     (st3, es, ids, byId)"
    by (cases "parentsLoop h r ln (length (Commit.parents c)) 0 (Commit.parents c)
       (st1\<lparr>activeLanes := AList.update ln h (activeLanes st1)\<rparr>, edges vg, [], edgeById vg)") auto
  from parentsLoop_edges[OF pl] obtain pls where
    pls: "length pls = length (Commit.parents c)"
    "es = edges vg @
       map (\<lambda>j. mkEdge h r ln (length (Commit.parents c)) (0 + j) (Commit.parents c ! j) (pls ! j))
         [0..<length (Commit.parents c)]"
    by blast
  from assms obtain vc where
    res: "commits vg' = commits vg @ [vc]" "edges vg' = es" "hash vc = h" "row vc = r"
      "lane vc = ln" "commitByHash vg' = AList.update h vc (commitByHash vg)"
    unfolding layoutCommit_def refsAt_def[symmetric]
    by (simp add: a vr pl Let_def) force
  show ?thesis
    using pls res by (intro exI[of _ ln] exI[of _ pls] exI[of _ vc]) simp
qed

text \<open>
  The invariant of the main loop, for the hashes \<open>pre\<close> processed so far: every laid-out
  commit sits at the row of its hash, the edges created at its row are one edge per parent,
  in parent order; every edge belongs to a laid-out commit and still has the placeholder
  \<^verbatim>\<open>toRow = -1\<close>; the edges are ordered by row and parent index; and \<^verbatim>\<open>commitByHash\<close>
  holds exactly the hashes of the laid-out commits.
\<close>

definition edgeOrder :: "VisualEdge \<Rightarrow> VisualEdge \<Rightarrow> bool" where
  "edgeOrder e1 e2 \<longleftrightarrow>
     fromRow e1 < fromRow e2 \<or> (fromRow e1 = fromRow e2 \<and> parentIndex e1 < parentIndex e2)"

definition rowEdges :: "VisualCommit \<Rightarrow> Commit \<Rightarrow> VisualEdge list \<Rightarrow> bool" where
  "rowEdges vc c out \<longleftrightarrow>
     (\<exists>pls. length pls = length (Commit.parents c) \<and>
        out = map (\<lambda>j. mkEdge (hash vc) (row vc) (lane vc) (length (Commit.parents c)) j
                        (Commit.parents c ! j) (pls ! j))
                [0..<length (Commit.parents c)])"

definition laidOut :: "RepositoryGraph \<Rightarrow> jsstring list \<Rightarrow> VisualGraph \<Rightarrow> bool" where
  "laidOut g pre vg \<longleftrightarrow>
     (\<forall>vc\<in>set (commits vg).
        0 \<le> row vc \<and> nat (row vc) < length pre \<and> pre ! nat (row vc) = hash vc \<and>
        (\<exists>c. map_of (RepositoryGraph.commits g) (hash vc) = Some c \<and>
             rowEdges vc c (filter (\<lambda>e. fromRow e = row vc) (edges vg)))) \<and>
     (\<forall>e\<in>set (edges vg). toRow e = -1 \<and> (\<exists>vc\<in>set (commits vg). fromRow e = row vc)) \<and>
     sorted_wrt edgeOrder (edges vg) \<and>
     (\<forall>h. mapHas (commitByHash vg) h \<longleftrightarrow> h \<in> hash ` set (commits vg))"

lemma laidOut_empty:
  "laidOut g []
     \<lparr>commits = [], edges = [], totalRows = 0, totalLanes = 0, commitByHash = [],
      commitByRow = [], edgeById = [], activeLanesAtRow = []\<rparr>"
  by (simp add: laidOut_def mapHas_def)

lemma laidOut_skip:
  assumes "laidOut g pre vg"
  shows "laidOut g (pre @ [h]) vg"
  using assms unfolding laidOut_def
  by (auto simp: nth_append)

lemma mapHas_update: "mapHas (AList.update k v m) k' \<longleftrightarrow> k' = k \<or> mapHas m k'"
  by (simp add: mapHas_def update_conv')

lemma laidOut_step:
  assumes inv: "laidOut g pre vg"
      and c: "map_of (RepositoryGraph.commits g) h = Some c"
      and step: "layoutCommit g opts (int (length pre)) h c (st, vg) = Inr (st', vg')"
  shows "laidOut g (pre @ [h]) vg'"
proof -
  let ?r = "int (length pre)"
  let ?k = "length (Commit.parents c)"
  from layoutCommit_result[OF step] obtain ln pls vc where
    pls: "length pls = ?k"
    and es: "edges vg' = edges vg @
               map (\<lambda>j. mkEdge h ?r ln ?k j (Commit.parents c ! j) (pls ! j)) [0..<?k]"
    and cs: "commits vg' = commits vg @ [vc]"
    and vc: "hash vc = h" "row vc = ?r" "lane vc = ln"
    and byHash: "commitByHash vg' = AList.update h vc (commitByHash vg)"
    by blast
  define new where "new = map (\<lambda>j. mkEdge h ?r ln ?k j (Commit.parents c ! j) (pls ! j)) [0..<?k]"
  have es': "edges vg' = edges vg @ new" using es new_def by simp
  have new_row: "fromRow e = ?r" if "e \<in> set new" for e
    using that unfolding new_def by auto
  have new_toRow: "toRow e = -1" if "e \<in> set new" for e
    using that unfolding new_def by auto
  have old_rows: "row v < ?r" "0 \<le> row v" if "v \<in> set (commits vg)" for v
    using inv that unfolding laidOut_def by auto
  have old_edge_rows: "fromRow e < ?r" if "e \<in> set (edges vg)" for e
  proof -
    from inv that obtain v where "v \<in> set (commits vg)" "fromRow e = row v"
      unfolding laidOut_def by blast
    with old_rows show ?thesis by simp
  qed
  have filter_old: "filter (\<lambda>e. fromRow e = row v) (edges vg') =
                    filter (\<lambda>e. fromRow e = row v) (edges vg)"
    if "v \<in> set (commits vg)" for v
  proof -
    have "filter (\<lambda>e. fromRow e = row v) new = []"
      using new_row old_rows(1)[OF that] by (auto simp: filter_empty_conv)
    then show ?thesis by (simp add: es')
  qed
  have filter_new: "filter (\<lambda>e. fromRow e = ?r) (edges vg') = new"
  proof -
    have "filter (\<lambda>e. fromRow e = ?r) (edges vg) = []"
      using old_edge_rows by (force simp: filter_empty_conv)
    moreover have "filter (\<lambda>e. fromRow e = ?r) new = new"
      using new_row by (simp add: filter_id_conv)
    ultimately show ?thesis by (simp add: es')
  qed
  have p1: "0 \<le> row v \<and> nat (row v) < length (pre @ [h]) \<and>
            (pre @ [h]) ! nat (row v) = hash v \<and>
            (\<exists>c. map_of (RepositoryGraph.commits g) (hash v) = Some c \<and>
                 rowEdges v c (filter (\<lambda>e. fromRow e = row v) (edges vg')))"
    if "v \<in> set (commits vg')" for v
  proof (cases "v \<in> set (commits vg)")
    case True
    from inv True have
      "0 \<le> row v \<and> nat (row v) < length pre \<and> pre ! nat (row v) = hash v \<and>
       (\<exists>c. map_of (RepositoryGraph.commits g) (hash v) = Some c \<and>
            rowEdges v c (filter (\<lambda>e. fromRow e = row v) (edges vg)))"
      unfolding laidOut_def by blast
    then show ?thesis using filter_old[OF True] by (auto simp: nth_append)
  next
    case False
    with that cs have v: "v = vc" by simp
    have "rowEdges vc c new"
      unfolding rowEdges_def new_def using pls vc by auto
    then show ?thesis
      unfolding v using vc c filter_new by simp
  qed
  have p2: "toRow e = -1 \<and> (\<exists>v\<in>set (commits vg'). fromRow e = row v)"
    if "e \<in> set (edges vg')" for e
  proof (cases "e \<in> set (edges vg)")
    case True
    with inv show ?thesis unfolding laidOut_def cs by auto
  next
    case False
    with that es' have "e \<in> set new" by simp
    then show ?thesis using new_row new_toRow vc cs by auto
  qed
  have p3: "sorted_wrt edgeOrder (edges vg')"
  proof -
    have "sorted_wrt edgeOrder (edges vg)" using inv unfolding laidOut_def by blast
    moreover have "sorted_wrt edgeOrder new"
      unfolding sorted_wrt_iff_nth_less new_def edgeOrder_def by simp
    moreover have "edgeOrder x y" if "x \<in> set (edges vg)" "y \<in> set new" for x y
      using old_edge_rows[OF that(1)] new_row[OF that(2)] by (simp add: edgeOrder_def)
    ultimately show ?thesis by (simp add: es' sorted_wrt_append)
  qed
  have p4: "mapHas (commitByHash vg') h' \<longleftrightarrow> h' \<in> hash ` set (commits vg')" for h'
  proof -
    have "mapHas (commitByHash vg) h' \<longleftrightarrow> h' \<in> hash ` set (commits vg)"
      using inv unfolding laidOut_def by blast
    then show ?thesis by (auto simp: byHash mapHas_update cs vc)
  qed
  show ?thesis
    unfolding laidOut_def using p1 p2 p3 p4 by blast
qed

lemma layoutLoop_laidOut:
  "laidOut g pre vg \<Longrightarrow>
   layoutLoop g opts (int (length pre)) hs (st, vg) = Inr (st', vg') \<Longrightarrow>
   laidOut g (pre @ hs) vg'"
proof (induction hs arbitrary: pre st vg)
  case Nil
  then show ?case by simp
next
  case (Cons h hs)
  have len: "int (length pre) + 1 = int (length (pre @ [h]))" by simp
  show ?case
  proof (cases "map_of (RepositoryGraph.commits g) h")
    case None
    with Cons.prems(2) have "layoutLoop g opts (int (length (pre @ [h]))) hs (st, vg) = Inr (st', vg')"
      by (simp add: len del: length_append)
    from Cons.IH[OF laidOut_skip[OF Cons.prems(1)] this] show ?thesis by simp
  next
    case (Some c)
    show ?thesis
    proof (cases "layoutCommit g opts (int (length pre)) h c (st, vg)")
      case (Inl e)
      with Cons.prems(2) Some show ?thesis by simp
    next
      case (Inr acc)
      obtain st1 vg1 where acc: "acc = (st1, vg1)" by (cases acc) auto
      from Cons.prems(2) Some Inr acc
      have "layoutLoop g opts (int (length (pre @ [h]))) hs (st1, vg1) = Inr (st', vg')"
        by (simp add: len del: length_append)
      from Cons.IH[OF laidOut_step[OF Cons.prems(1) Some Inr[unfolded acc]] this]
      show ?thesis by simp
    qed
  qed
qed

text \<open>What the second pass does to one edge.\<close>

definition fillRow :: "(jsstring, VisualCommit) jsmap \<Rightarrow> VisualEdge \<Rightarrow> VisualEdge" where
  "fillRow byHash e =
     (case map_of byHash (toHash e) of None \<Rightarrow> e | Some pc \<Rightarrow> e\<lparr>toRow := row pc\<rparr>)"

lemma fillRow_sel [simp]:
  "edgeId (fillRow b e) = edgeId e" "fromHash (fillRow b e) = fromHash e"
  "toHash (fillRow b e) = toHash e" "fromRow (fillRow b e) = fromRow e"
  "fromLane (fillRow b e) = fromLane e" "toLane (fillRow b e) = toLane e"
  "VisualEdge.type (fillRow b e) = VisualEdge.type e" "parentIndex (fillRow b e) = parentIndex e"
  by (simp_all add: fillRow_def split: option.splits)

lemma fillRow_absent: "\<not> mapHas b (toHash e) \<Longrightarrow> fillRow b e = e"
  by (simp add: fillRow_def mapHas_def)

lemma fillToRows_edges:
  "fst (fillToRows byHash es (done, m)) = done @ map (fillRow byHash) es"
  by (induction es arbitrary: "done" m) (auto simp: fillRow_def Let_def split: option.splits)

lemma createVisualGraph_result:
  assumes "createVisualGraph g opts = Inr vg"
  shows "\<exists>vg'. laidOut g (rev (topologicalOrder g)) vg' \<and>
           edges vg = map (fillRow (commitByHash vg')) (edges vg') \<and>
           commits vg = commits vg' \<and> commitByHash vg = commitByHash vg'"
proof -
  let ?st0 = "\<lparr>laneByCommit = [], activeLanes = [], freeLanes = [], LaneState.maxLane = -1\<rparr>"
  let ?vg0 = "\<lparr>commits = [], edges = [], totalRows = 0, totalLanes = 0, commitByHash = [],
               commitByRow = [], edgeById = [], activeLanesAtRow = []\<rparr>"
  obtain st' vg' where loop:
    "layoutLoop g opts 0 (rev (topologicalOrder g)) (?st0, ?vg0) = Inr (st', vg')"
    using assms unfolding createVisualGraph_def Let_def
    by (cases "layoutLoop g opts 0 (rev (topologicalOrder g)) (?st0, ?vg0)") auto
  have "laidOut g ([] @ rev (topologicalOrder g)) vg'"
    by (rule layoutLoop_laidOut[OF laidOut_empty]) (use loop in simp)
  then have lo: "laidOut g (rev (topologicalOrder g)) vg'" by simp
  obtain es byId where f: "fillToRows (commitByHash vg') (edges vg') ([], edgeById vg') = (es, byId)"
    by (cases "fillToRows (commitByHash vg') (edges vg') ([], edgeById vg')") auto
  have es: "es = map (fillRow (commitByHash vg')) (edges vg')"
    using fillToRows_edges[of "commitByHash vg'" "edges vg'" "[]" "edgeById vg'"] f by simp
  have vg: "vg = vg'\<lparr>edges := es, edgeById := byId, totalRows := int (length (commits vg')),
                     totalLanes := LaneState.maxLane st' + 1\<rparr>"
    using assms unfolding createVisualGraph_def Let_def by (simp add: loop f)
  show ?thesis
    using lo es vg by (intro exI[of _ vg']) simp
qed

lemma length_filter_pos_upt: "length (filter (\<lambda>j. 0 < j) [0..<k]) = k - 1"
  by (induction k) auto

text \<open>
  Claim C3. Let \<open>vc\<close> be a commit of a visual graph produced by \<^verbatim>\<open>createVisualGraph\<close>,
  with \<open>k\<close> parents; its outgoing edges are the edges created at its row. There is one
  edge per parent, with parent indices \<open>0\<close> to \<open>k - 1\<close> in order. An edge has type
  \<open>merge\<close> exactly when \<open>k \<ge> 2\<close> and its parent index is at least 1, so for \<open>k \<ge> 2\<close>
  exactly \<open>k - 1\<close> of the edges are merges. A first-parent edge between different lanes
  has type \<open>fork\<close>, and an edge within one lane that is not a merge has type \<open>straight\<close>.
\<close>

theorem createVisualGraph_edge_types:
  assumes "createVisualGraph g opts = Inr vg" and "vc \<in> set (commits vg)"
  shows "\<exists>c. map_of (RepositoryGraph.commits g) (hash vc) = Some c \<and>
     (let k = length (Commit.parents c);
          out = filter (\<lambda>e. fromRow e = row vc) (edges vg)
      in map parentIndex out = [0..<k] \<and>
         map toHash out = Commit.parents c \<and>
         (\<forall>e\<in>set out.
            fromHash e = hash vc \<and> fromLane e = lane vc \<and>
            (2 \<le> k \<and> 1 \<le> parentIndex e \<longrightarrow> VisualEdge.type e = merge) \<and>
            (VisualEdge.type e = merge \<longrightarrow> 2 \<le> k \<and> 1 \<le> parentIndex e) \<and>
            (parentIndex e = 0 \<and> fromLane e \<noteq> toLane e \<longrightarrow> VisualEdge.type e = fork) \<and>
            (fromLane e = toLane e \<and> VisualEdge.type e \<noteq> merge \<longrightarrow>
               VisualEdge.type e = straight)) \<and>
         (2 \<le> k \<longrightarrow> length (filter (\<lambda>e. VisualEdge.type e = merge) out) = k - 1))"
proof -
  from createVisualGraph_result[OF assms(1)] obtain vg' where
    lo: "laidOut g (rev (topologicalOrder g)) vg'"
    and es: "edges vg = map (fillRow (commitByHash vg')) (edges vg')"
    and cs: "commits vg = commits vg'" by blast
  from lo assms(2) cs obtain c where
    c: "map_of (RepositoryGraph.commits g) (hash vc) = Some c"
    and re: "rowEdges vc c (filter (\<lambda>e. fromRow e = row vc) (edges vg'))"
    unfolding laidOut_def by auto
  let ?k = "length (Commit.parents c)"
  from re obtain pls where
    pls: "filter (\<lambda>e. fromRow e = row vc) (edges vg') =
          map (\<lambda>j. mkEdge (hash vc) (row vc) (lane vc) ?k j (Commit.parents c ! j) (pls ! j)) [0..<?k]"
    unfolding rowEdges_def by blast
  define f where
    "f = (\<lambda>j. fillRow (commitByHash vg')
                (mkEdge (hash vc) (row vc) (lane vc) ?k j (Commit.parents c ! j) (pls ! j)))"
  define out where "out = filter (\<lambda>e. fromRow e = row vc) (edges vg)"
  have out: "out = map f [0..<?k]"
    unfolding out_def es filter_map f_def
    by (simp add: comp_def pls)
  have idx: "map parentIndex out = [0..<?k]"
    unfolding out f_def by (simp add: comp_def map_idI)
  have tgt: "map toHash out = Commit.parents c"
    unfolding out f_def by (simp add: comp_def map_nth)
  have each: "fromHash e = hash vc \<and> fromLane e = lane vc \<and>
            (2 \<le> ?k \<and> 1 \<le> parentIndex e \<longrightarrow> VisualEdge.type e = merge) \<and>
            (VisualEdge.type e = merge \<longrightarrow> 2 \<le> ?k \<and> 1 \<le> parentIndex e) \<and>
            (parentIndex e = 0 \<and> fromLane e \<noteq> toLane e \<longrightarrow> VisualEdge.type e = fork) \<and>
            (fromLane e = toLane e \<and> VisualEdge.type e \<noteq> merge \<longrightarrow>
               VisualEdge.type e = straight)"
    if "e \<in> set out" for e
  proof -
    from that obtain j where j: "j < ?k" "e = f j" unfolding out by auto
    then have "j = 0 \<or> 2 \<le> ?k" by arith
    then show ?thesis
    proof
      assume "j = 0"
      with j show ?thesis unfolding f_def by simp
    next
      assume "2 \<le> ?k"
      with j show ?thesis unfolding f_def by (cases "j = 0") simp_all
    qed
  qed
  have cnt: "length (filter (\<lambda>e. VisualEdge.type e = merge) out) = ?k - 1" if "2 \<le> ?k"
  proof -
    have "filter (\<lambda>e. VisualEdge.type e = merge) out =
          map f (filter (\<lambda>j. VisualEdge.type (f j) = merge) [0..<?k])"
      unfolding out filter_map by (simp add: comp_def)
    also have "filter (\<lambda>j. VisualEdge.type (f j) = merge) [0..<?k] = filter (\<lambda>j. 0 < j) [0..<?k]"
      using that unfolding f_def by (intro filter_cong) auto
    finally show ?thesis by (simp add: length_filter_pos_upt)
  qed
  show ?thesis
    using c idx tgt each cnt unfolding Let_def out_def by blast
qed

text \<open>Edge ids are told apart by their three parts when the hashes contain no hyphen.\<close>

lemma dec_digits: "c \<in> set (dec n) \<Longrightarrow> 48 \<le> c \<and> c \<le> 57"
proof (induction n arbitrary: c rule: dec.induct)
  case (1 n)
  show ?case
  proof (cases "n < 10")
    case True
    with "1.prems" show ?thesis by (simp add: dec.simps[of n] digit_def)
  next
    case False
    with "1.prems" have "c \<in> set (dec (n div 10)) \<or> c = digit (n mod 10)"
      by (auto simp: dec.simps[of n])
    then show ?thesis
    proof
      assume "c \<in> set (dec (n div 10))"
      with "1.IH"[OF False] show ?thesis by blast
    next
      assume "c = digit (n mod 10)"
      then show ?thesis by (simp add: digit_def)
    qed
  qed
qed

definition undec :: "jsstring \<Rightarrow> nat" where
  "undec s = foldl (\<lambda>a d. 10 * a + (d - 48)) 0 s"

lemma undec_dec: "undec (dec n) = n"
proof (induction n rule: dec.induct)
  case (1 n)
  show ?case
  proof (cases "n < 10")
    case True
    then show ?thesis by (simp add: dec.simps[of n] undec_def digit_def)
  next
    case False
    have "undec (dec n) = 10 * undec (dec (n div 10)) + (digit (n mod 10) - 48)"
      using False by (simp add: dec.simps[of n] undec_def)
    also have "\<dots> = 10 * (n div 10) + n mod 10"
      using "1.IH"[OF False] by (simp add: digit_def)
    finally show ?thesis by simp
  qed
qed

lemma dec_inj: "dec m = dec n \<Longrightarrow> m = n"
  by (metis undec_dec)

lemma split_unique:
  "x \<notin> set a \<Longrightarrow> x \<notin> set a' \<Longrightarrow> a @ x # b = a' @ x # b' \<Longrightarrow> a = a' \<and> b = b'"
proof (induction a arbitrary: a')
  case Nil
  then show ?case by (cases a') auto
next
  case (Cons y ys)
  then show ?case by (cases a') auto
qed

lemma edgeId_inj:
  assumes "45 \<notin> set h1" "45 \<notin> set h2" "45 \<notin> set p1" "45 \<notin> set p2"
      and "h1 @ lit ''-'' @ p1 @ lit ''-'' @ dec i1 = h2 @ lit ''-'' @ p2 @ lit ''-'' @ dec i2"
  shows "h1 = h2 \<and> p1 = p2 \<and> i1 = i2"
proof -
  have l: "lit ''-'' = [45]" by (simp add: lit_def)
  from assms(5) have "h1 @ 45 # (p1 @ 45 # dec i1) = h2 @ 45 # (p2 @ 45 # dec i2)"
    by (simp add: l)
  from split_unique[OF assms(1,2) this] have h: "h1 = h2" and r: "p1 @ 45 # dec i1 = p2 @ 45 # dec i2"
    by auto
  from split_unique[OF assms(3,4) r] have "p1 = p2" "dec i1 = dec i2" by auto
  with h dec_inj show ?thesis by blast
qed

lemma isCommitHash_no_hyphen: "isCommitHash h \<Longrightarrow> 45 \<notin> set h"
  by (auto simp: isCommitHash_def list_all_iff isHexLower_def)

lemma laidOut_edge:
  assumes "laidOut g pre vg" and "e \<in> set (edges vg)"
  shows "0 \<le> fromRow e \<and> nat (fromRow e) < length pre \<and> fromHash e = pre ! nat (fromRow e) \<and>
         toHash e \<in> knownParents g \<and>
         edgeId e = fromHash e @ lit ''-'' @ toHash e @ lit ''-'' @ dec (parentIndex e) \<and>
         toRow e = -1"
proof -
  from assms obtain vc where vc: "vc \<in> set (commits vg)" "fromRow e = row vc"
    unfolding laidOut_def by blast
  with assms(1) obtain c where
    rows: "0 \<le> row vc" "nat (row vc) < length pre" "pre ! nat (row vc) = hash vc"
    and c: "map_of (RepositoryGraph.commits g) (hash vc) = Some c"
    and re: "rowEdges vc c (filter (\<lambda>e. fromRow e = row vc) (edges vg))"
    unfolding laidOut_def by blast
  from re obtain pls where
    pls: "filter (\<lambda>e. fromRow e = row vc) (edges vg) =
          map (\<lambda>j. mkEdge (hash vc) (row vc) (lane vc) (length (Commit.parents c)) j
                     (Commit.parents c ! j) (pls ! j)) [0..<length (Commit.parents c)]"
    unfolding rowEdges_def by blast
  have "e \<in> set (filter (\<lambda>e. fromRow e = row vc) (edges vg))"
    using assms(2) vc(2) by simp
  then obtain j where j: "j < length (Commit.parents c)"
    "e = mkEdge (hash vc) (row vc) (lane vc) (length (Commit.parents c)) j
           (Commit.parents c ! j) (pls ! j)"
    unfolding pls by auto
  have "Commit.parents c ! j \<in> knownParents g"
    using parents_known[OF c] j(1) by (meson nth_mem subsetD)
  then show ?thesis
    using rows vc(2) unfolding j(2) by simp
qed

lemma distinct_map_sorted_wrt:
  "sorted_wrt P xs \<Longrightarrow> (\<forall>x\<in>set xs. \<forall>y\<in>set xs. P x y \<longrightarrow> f x \<noteq> f y) \<Longrightarrow> distinct (map f xs)"
  by (induction xs) auto

lemma laidOut_distinct_ids:
  assumes lo: "laidOut g pre vg" and d: "distinct pre"
      and nh: "\<forall>h\<in>set pre \<union> knownParents g. 45 \<notin> set h"
  shows "distinct (map edgeId (edges vg))"
proof (rule distinct_map_sorted_wrt[where P = edgeOrder])
  show "sorted_wrt edgeOrder (edges vg)" using lo unfolding laidOut_def by blast
next
  show "\<forall>x\<in>set (edges vg). \<forall>y\<in>set (edges vg). edgeOrder x y \<longrightarrow> edgeId x \<noteq> edgeId y"
  proof (intro ballI impI notI)
    fix x y assume x: "x \<in> set (edges vg)" and y: "y \<in> set (edges vg)"
      and ord: "edgeOrder x y" and eq: "edgeId x = edgeId y"
    note ex = laidOut_edge[OF lo x] and ey = laidOut_edge[OF lo y]
    have hx: "45 \<notin> set (fromHash x)" "45 \<notin> set (toHash x)"
      using ex nh by (auto simp: nth_mem)
    have hy: "45 \<notin> set (fromHash y)" "45 \<notin> set (toHash y)"
      using ey nh by (auto simp: nth_mem)
    have "fromHash x @ lit ''-'' @ toHash x @ lit ''-'' @ dec (parentIndex x) =
          fromHash y @ lit ''-'' @ toHash y @ lit ''-'' @ dec (parentIndex y)"
      using ex ey eq by simp
    from edgeId_inj[OF hx(1) hy(1) hx(2) hy(2) this]
    have same: "fromHash x = fromHash y" "parentIndex x = parentIndex y" by auto
    have "pre ! nat (fromRow x) = pre ! nat (fromRow y)" using same(1) ex ey by simp
    then have "nat (fromRow x) = nat (fromRow y)"
      using d ex ey by (simp add: nth_eq_iff_index_eq)
    moreover have "0 \<le> fromRow x" "0 \<le> fromRow y" using ex ey by simp_all
    ultimately have "fromRow x = fromRow y" by arith
    with same(2) ord show False by (simp add: edgeOrder_def)
  qed
qed

lemma visibleEdgesLoop_filter:
  "distinct (map edgeId es) \<Longrightarrow> edgeId ` set es \<inter> seen = {} \<Longrightarrow>
   visibleEdgesLoop s t es result seen =
     result @ filter (\<lambda>e. max (fromRow e) (toRow e) \<ge> s \<and> min (fromRow e) (toRow e) \<le> t) es"
proof (induction es arbitrary: result seen)
  case Nil
  show ?case by simp
next
  case (Cons e es)
  have d: "distinct (map edgeId es)" using Cons.prems(1) by simp
  have notin: "edgeId e \<notin> seen" using Cons.prems(2) by auto
  have s1: "edgeId ` set es \<inter> seen = {}" using Cons.prems(2) by auto
  have s2: "edgeId ` set es \<inter> insert (edgeId e) seen = {}"
    using Cons.prems s1 by auto
  show ?case
    using notin Cons.IH[OF d s1] Cons.IH[OF d s2] by (simp add: Let_def)
qed

text \<open>
  Claim C9, as the code has it. \<^verbatim>\<open>getVisibleEdges\<close> skips an edge whose id it has
  already returned, so the claim needs the edge ids to be distinct: the topological order
  lists no hash twice, and the hashes are commit hashes. Then an edge whose target is not
  among the laid-out commits keeps \<^verbatim>\<open>toRow = -1\<close>, and it is returned for the range
  from \<open>startRow\<close> to \<open>endRow\<close> exactly when \<open>fromRow \<ge> startRow\<close> and \<open>endRow \<ge> -1\<close>.
\<close>

theorem createVisualGraph_dangling_edges:
  assumes vg: "createVisualGraph g opts = Inr vg"
      and d: "distinct (topologicalOrder g)"
      and hashes: "\<forall>h\<in>set (topologicalOrder g) \<union> knownParents g. isCommitHash h"
      and e: "e \<in> set (edges vg)"
      and absent: "toHash e \<notin> hash ` set (commits vg)"
  shows "toRow e = -1 \<and>
         (e \<in> set (getVisibleEdges vg startRow endRow) \<longleftrightarrow>
            fromRow e \<ge> startRow \<and> endRow \<ge> -1)"
proof -
  from createVisualGraph_result[OF vg] obtain vg' where
    lo: "laidOut g (rev (topologicalOrder g)) vg'"
    and es: "edges vg = map (fillRow (commitByHash vg')) (edges vg')"
    and cs: "commits vg = commits vg'" by blast
  from e es obtain e' where e': "e' \<in> set (edges vg')" "e = fillRow (commitByHash vg') e'"
    by auto
  have "\<not> mapHas (commitByHash vg') (toHash e')"
    using lo absent cs e'(2) unfolding laidOut_def by simp
  then have same: "e = e'" using e'(2) by (simp add: fillRow_absent)
  note props = laidOut_edge[OF lo e'(1)]
  have toRow: "toRow e = -1" and row0: "0 \<le> fromRow e" using props same by simp_all
  have nh: "\<forall>h\<in>set (rev (topologicalOrder g)) \<union> knownParents g. 45 \<notin> set h"
    using hashes isCommitHash_no_hyphen by auto
  have "distinct (map edgeId (edges vg'))"
    by (rule laidOut_distinct_ids[OF lo _ nh]) (simp add: d)
  then have "distinct (map edgeId (edges vg))"
    unfolding es by (simp add: comp_def)
  then have vis: "getVisibleEdges vg startRow endRow =
      filter (\<lambda>e. max (fromRow e) (toRow e) \<ge> startRow \<and> min (fromRow e) (toRow e) \<le> endRow)
        (edges vg)"
    unfolding getVisibleEdges_def by (simp add: visibleEdgesLoop_filter)
  have "e \<in> set (getVisibleEdges vg startRow endRow) \<longleftrightarrow>
        max (fromRow e) (-1) \<ge> startRow \<and> min (fromRow e) (-1) \<le> endRow"
    unfolding vis using e toRow by simp
  also have "\<dots> \<longleftrightarrow> fromRow e \<ge> startRow \<and> endRow \<ge> -1"
    using row0 by (simp add: max_def min_def)
  finally show ?thesis using toRow by simp
qed

section \<open>Example layouts\<close>

text \<open>
  Builders for the expected output of the layout on small histories: an edge and a commit of
  the visual graph given by the short names of \<open>testHash\<close>, and a visual graph whose indices
  list its commits and edges in order.
\<close>

definition noOptions :: LayoutOptions where
  "noOptions = \<lparr>protectedBranches = None\<rparr>"

definition testEdgeId :: "string \<Rightarrow> string \<Rightarrow> nat \<Rightarrow> jsstring" where
  "testEdgeId f t i = testHash f @ lit ''-'' @ testHash t @ lit ''-'' @ dec i"

definition testEdge ::
  "string \<Rightarrow> string \<Rightarrow> nat \<Rightarrow> int \<times> int \<Rightarrow> int \<times> int \<Rightarrow> EdgeType \<Rightarrow> VisualEdge" where
  "testEdge f t i from to ty =
     \<lparr>edgeId = testEdgeId f t i, fromHash = testHash f, toHash = testHash t,
      fromRow = fst from, fromLane = snd from, toRow = fst to, toLane = snd to,
      type = ty, parentIndex = i\<rparr>"

definition testVisualCommit ::
  "string \<Rightarrow> int \<times> int \<Rightarrow> bool \<Rightarrow> bool \<Rightarrow> bool \<Rightarrow> jsstring list \<Rightarrow> VisualCommit" where
  "testVisualCommit h at mrg root hdc ids =
     \<lparr>hash = testHash h, row = fst at, lane = snd at, isMerge = mrg, isBranchTip = False,
      isRoot = root, isHead = hdc, refs = [], edgeIds = ids\<rparr>"

definition testLayout ::
  "VisualCommit list \<Rightarrow> VisualEdge list \<Rightarrow> int \<Rightarrow> (int \<times> int list) list \<Rightarrow> VisualGraph" where
  "testLayout cs es lanes active =
     \<lparr>commits = cs, edges = es, totalRows = int (length cs), totalLanes = lanes,
      commitByHash = map (\<lambda>c. (hash c, c)) cs,
      commitByRow = map (\<lambda>c. (row c, c)) cs,
      edgeById = map (\<lambda>e. (edgeId e, e)) es,
      activeLanesAtRow = active\<rparr>"

text \<open>The definitions that the evaluation of a layout unfolds.\<close>

lemmas layout_eval =
  buildGraph_def Let_def pushTo_def mapHas_def testCommit_def
  createVisualGraph_def layoutCommit_def noOptions_def allocateLane_def freeLane_def
  toVisualRef_def testHash_def lit_def dec.simps digit_def
  testEdge_def testEdgeId_def testVisualCommit_def testLayout_def

text \<open>
  Two branches from one root: \<open>b\<close> and \<open>c\<close> are children of \<open>a\<close>, and \<open>b\<close> is the head.
\<close>

definition branchGraph :: RepositoryGraph where
  "branchGraph =
     buildGraph [testCommit ''a'' [], testCommit ''b'' [''a''], testCommit ''c'' [''a'']]
       [] (Some (testHash ''b'')) None"

definition branchLayout :: VisualGraph where
  "branchLayout =
     testLayout
       [testVisualCommit ''c'' (0, 0) False False False [testEdgeId ''c'' ''a'' 0],
        testVisualCommit ''b'' (1, 1) False False True [testEdgeId ''b'' ''a'' 0],
        testVisualCommit ''a'' (2, 0) False True False []]
       [testEdge ''c'' ''a'' 0 (0, 0) (2, 0) straight,
        testEdge ''b'' ''a'' 0 (1, 1) (2, 0) fork]
       2 [(0, [0]), (1, []), (2, [0])]"

lemma branchGraph_layout: "createVisualGraph branchGraph noOptions = Inr branchLayout"
  by (simp add: branchGraph_def branchLayout_def layout_eval)

text \<open>
  Three roots \<open>0\<close>, \<open>1\<close>, \<open>2\<close>, a child \<open>3\<close> of \<open>0\<close>, a merge \<open>4\<close> of \<open>0\<close> and \<open>1\<close>, and an
  octopus merge \<open>5\<close> of \<open>1\<close>, \<open>4\<close> and \<open>2\<close>.
\<close>

definition mergeGraph :: RepositoryGraph where
  "mergeGraph =
     buildGraph [testCommit ''0'' [], testCommit ''1'' [], testCommit ''2'' [],
                 testCommit ''3'' [''0''], testCommit ''4'' [''0'', ''1''],
                 testCommit ''5'' [''1'', ''4'', ''2'']]
       [] None None"

definition mergeLayout :: VisualGraph where
  "mergeLayout =
     testLayout
       [testVisualCommit ''5'' (0, 0) True False False
          [testEdgeId ''5'' ''1'' 0, testEdgeId ''5'' ''4'' 1, testEdgeId ''5'' ''2'' 2],
        testVisualCommit ''4'' (1, 1) True False False
          [testEdgeId ''4'' ''0'' 0, testEdgeId ''4'' ''1'' 1],
        testVisualCommit ''3'' (2, 3) False False False [testEdgeId ''3'' ''0'' 0],
        testVisualCommit ''2'' (3, 2) False True False [],
        testVisualCommit ''1'' (4, 0) False True False [],
        testVisualCommit ''0'' (5, 1) False True False []]
       [testEdge ''5'' ''1'' 0 (0, 0) (4, 0) straight,
        testEdge ''5'' ''4'' 1 (0, 0) (1, 1) merge,
        testEdge ''5'' ''2'' 2 (0, 0) (3, 2) merge,
        testEdge ''4'' ''0'' 0 (1, 1) (5, 1) straight,
        testEdge ''4'' ''1'' 1 (1, 1) (4, 0) merge,
        testEdge ''3'' ''0'' 0 (2, 3) (5, 1) fork]
       4 [(0, [0]), (1, [1]), (2, []), (3, []), (4, [0]), (5, [1])]"

lemma mergeGraph_layout: "createVisualGraph mergeGraph noOptions = Inr mergeLayout"
  by (simp add: mergeGraph_def mergeLayout_def layout_eval)

lemma testEdge_sel [simp]:
  "fromRow (testEdge f t i from to ty) = fst from" "fromLane (testEdge f t i from to ty) = snd from"
  "toRow (testEdge f t i from to ty) = fst to" "toLane (testEdge f t i from to ty) = snd to"
  by (simp_all add: testEdge_def)

lemma testEdge_remap [simp]:
  "(testEdge f t i from to ty)\<lparr>fromLane := a, toLane := b\<rparr> =
   testEdge f t i (fst from, a) (fst to, b) ty"
  by (simp add: testEdge_def)

lemma testVisualCommit_sel [simp]:
  "row (testVisualCommit h at mrg root hdc ids) = fst at"
  "lane (testVisualCommit h at mrg root hdc ids) = snd at"
  by (simp_all add: testVisualCommit_def)

lemma testLayout_sel [simp]:
  "edges (testLayout cs es lanes active) = es" "commits (testLayout cs es lanes active) = cs"
  "totalLanes (testLayout cs es lanes active) = lanes"
  by (simp_all add: testLayout_def)


section \<open>Properties of the layout on the examples\<close>

text \<open>
  Claim C2 (the snapshot of the active lanes at a row holds the lane of the commit of that row):
  fails on the layout of two branches from one root. The commit \<open>b\<close> is placed at row 1 in
  lane 1; its only parent \<open>a\<close> already has lane 0 reserved, so \<^verbatim>\<open>freeLane\<close> removes lane 1 from
  the active lanes before the snapshot of row 1 is taken, and the snapshot is empty.
\<close>

theorem createVisualGraph_branch_active_lanes:
  "createVisualGraph branchGraph noOptions = Inr branchLayout \<and>
   row (commits branchLayout ! 1) = 1 \<and> lane (commits branchLayout ! 1) = 1 \<and>
   map_of (activeLanesAtRow branchLayout) 1 = Some []"
  using branchGraph_layout by (simp add: branchLayout_def testLayout_def)

text \<open>
  The octopus merge \<open>5\<close> at row 0 has three parents: its outgoing edges have the parent
  indices 0, 1, 2, and two of them are merge edges.
\<close>

theorem createVisualGraph_edge_types_witness:
  "createVisualGraph mergeGraph noOptions = Inr mergeLayout \<and>
   commits mergeLayout ! 0 \<in> set (commits mergeLayout) \<and>
   map parentIndex (filter (\<lambda>e. fromRow e = 0) (edges mergeLayout)) = [0, 1, 2] \<and>
   map VisualEdge.type (filter (\<lambda>e. fromRow e = 0) (edges mergeLayout)) = [straight, merge, merge] \<and>
   length (filter (\<lambda>e. VisualEdge.type e = merge)
             (filter (\<lambda>e. fromRow e = 0) (edges mergeLayout))) = 3 - 1"
proof -
  have m: "commits mergeLayout ! 0 \<in> set (commits mergeLayout)"
    by (simp add: mergeLayout_def)
  have c: "map_of (RepositoryGraph.commits mergeGraph) (hash (commits mergeLayout ! 0)) =
             Some (testCommit ''5'' [''1'', ''4'', ''2''])"
    by (simp add: mergeGraph_def mergeLayout_def buildGraph_def Let_def testVisualCommit_def
          testCommit_def testHash_def lit_def)
  have r: "row (commits mergeLayout ! 0) = 0" by (simp add: mergeLayout_def)
  have t: "map VisualEdge.type (filter (\<lambda>e. fromRow e = 0) (edges mergeLayout)) =
             [straight, merge, merge]"
    by (simp add: mergeLayout_def testEdge_def)
  from createVisualGraph_edge_types[OF mergeGraph_layout m]
  have "map parentIndex (filter (\<lambda>e. fromRow e = 0) (edges mergeLayout)) = [0, Suc 0, Suc (Suc 0)] \<and>
        length (filter (\<lambda>e. VisualEdge.type e = merge)
             (filter (\<lambda>e. fromRow e = 0) (edges mergeLayout))) = Suc (Suc 0)"
    unfolding c r Let_def by simp
  then show ?thesis using mergeGraph_layout m t by (simp add: numeral_eq_Suc)
qed

text \<open>A partially loaded history: \<open>c\<close> has parent \<open>b\<close>, whose parent \<open>a\<close> is not loaded.\<close>

definition partialGraph :: RepositoryGraph where
  "partialGraph =
     buildGraph [testCommit ''b'' [''a''], testCommit ''c'' [''b'']] []
       (Some (testHash ''c'')) None"

definition partialLayout :: VisualGraph where
  "partialLayout =
     testLayout
       [testVisualCommit ''c'' (0, 0) False False True [testEdgeId ''c'' ''b'' 0],
        testVisualCommit ''b'' (1, 0) False True False [testEdgeId ''b'' ''a'' 0]]
       [testEdge ''c'' ''b'' 0 (0, 0) (1, 0) straight,
        testEdge ''b'' ''a'' 0 (1, 0) (-1, 0) straight]
       1 [(0, [0]), (1, [0])]"

lemma partialGraph_layout: "createVisualGraph partialGraph noOptions = Inr partialLayout"
  by (simp add: partialGraph_def partialLayout_def layout_eval)

lemma isCommitHash_testHash:
  "isCommitHash (testHash ''a'')" "isCommitHash (testHash ''b'')" "isCommitHash (testHash ''c'')"
  by (simp_all add: isCommitHash_def testHash_def lit_def isHexLower_def list_all_iff)

theorem createVisualGraph_dangling_edges_witness:
  "createVisualGraph partialGraph noOptions = Inr partialLayout \<and>
   distinct (topologicalOrder partialGraph) \<and>
   edges partialLayout ! 1 \<in> set (edges partialLayout) \<and>
   toHash (edges partialLayout ! 1) \<notin> hash ` set (commits partialLayout) \<and>
   toRow (edges partialLayout ! 1) = -1 \<and>
   edges partialLayout ! 1 \<in> set (getVisibleEdges partialLayout 0 5) \<and>
   edges partialLayout ! 1 \<notin> set (getVisibleEdges partialLayout 2 5)"
proof -
  have topo: "topologicalOrder partialGraph = [testHash ''b'', testHash ''c'']"
    by (simp add: partialGraph_def buildGraph_def Let_def testCommit_def)
  have d: "distinct (topologicalOrder partialGraph)"
    unfolding topo by simp
  have kp: "knownParents partialGraph = {testHash ''b'', testHash ''a''}"
    by (simp add: knownParents_def partialGraph_def buildGraph_def Let_def testCommit_def)
  have hs: "\<forall>h\<in>set (topologicalOrder partialGraph) \<union> knownParents partialGraph. isCommitHash h"
    unfolding topo kp using isCommitHash_testHash by simp
  have e: "edges partialLayout ! 1 \<in> set (edges partialLayout)"
    by (simp add: partialLayout_def)
  have a: "toHash (edges partialLayout ! 1) \<notin> hash ` set (commits partialLayout)"
    by (simp add: partialLayout_def testEdge_def testVisualCommit_def)
  have f: "fromRow (edges partialLayout ! 1) = 1" by (simp add: partialLayout_def)
  from createVisualGraph_dangling_edges[OF partialGraph_layout d hs e a, of 0 5]
       createVisualGraph_dangling_edges[OF partialGraph_layout d hs e a, of 2 5]
  show ?thesis using partialGraph_layout d e a unfolding f by simp
qed

text \<open>
  Claim C9 as stated fails: a graph built from a commit list that holds the commit \<open>b\<close> twice. Both
  rows have an edge to the absent parent \<open>a\<close> with the same id; \<^verbatim>\<open>getVisibleEdges\<close> returns an
  id once, so the edge of row 1 is not returned although its rows overlap the range.
\<close>

definition dupGraph :: RepositoryGraph where
  "dupGraph = buildGraph [testCommit ''b'' [''a''], testCommit ''b'' [''a'']] [] None None"

definition dupLayout :: VisualGraph where
  "dupLayout =
     \<lparr>commits =
        [testVisualCommit ''b'' (0, 0) False True False [testEdgeId ''b'' ''a'' 0],
         testVisualCommit ''b'' (1, 1) False True False [testEdgeId ''b'' ''a'' 0]],
      edges =
        [testEdge ''b'' ''a'' 0 (0, 0) (-1, 0) straight,
         testEdge ''b'' ''a'' 0 (1, 1) (-1, 0) fork],
      totalRows = 2, totalLanes = 2,
      commitByHash =
        [(testHash ''b'',
          testVisualCommit ''b'' (1, 1) False True False [testEdgeId ''b'' ''a'' 0])],
      commitByRow =
        [(0, testVisualCommit ''b'' (0, 0) False True False [testEdgeId ''b'' ''a'' 0]),
         (1, testVisualCommit ''b'' (1, 1) False True False [testEdgeId ''b'' ''a'' 0])],
      edgeById = [(testEdgeId ''b'' ''a'' 0, testEdge ''b'' ''a'' 0 (1, 1) (-1, 0) fork)],
      activeLanesAtRow = [(0, [0]), (1, [])]\<rparr>"

lemma dupGraph_layout: "createVisualGraph dupGraph noOptions = Inr dupLayout"
  by (simp add: dupGraph_def dupLayout_def layout_eval)

theorem getVisibleEdges_duplicate_id_counterexample:
  "createVisualGraph dupGraph noOptions = Inr dupLayout \<and>
   edges dupLayout ! 1 \<in> set (edges dupLayout) \<and>
   toHash (edges dupLayout ! 1) \<notin> hash ` set (commits dupLayout) \<and>
   toRow (edges dupLayout ! 1) = -1 \<and>
   fromRow (edges dupLayout ! 1) \<ge> 0 \<and> (5::int) \<ge> -1 \<and>
   edges dupLayout ! 1 \<notin> set (getVisibleEdges dupLayout 0 5)"
proof -
  have v: "getVisibleEdges dupLayout 0 5 = [testEdge ''b'' ''a'' 0 (0, 0) (-1, 0) straight]"
    by (simp add: getVisibleEdges_def dupLayout_def Let_def testEdge_def)
  have e: "edges dupLayout ! 1 = testEdge ''b'' ''a'' 0 (1, 1) (-1, 0) fork"
    by (simp add: dupLayout_def)
  have m: "edges dupLayout ! 1 \<in> set (edges dupLayout)"
    by (simp add: dupLayout_def)
  have a: "toHash (edges dupLayout ! 1) \<notin> hash ` set (commits dupLayout)"
    by (simp add: dupLayout_def testEdge_def testVisualCommit_def)
  have r: "toRow (edges dupLayout ! 1) = -1" "fromRow (edges dupLayout ! 1) \<ge> 0"
    unfolding e by (simp_all add: testEdge_def)
  have n: "edges dupLayout ! 1 \<notin> set (getVisibleEdges dupLayout 0 5)"
    unfolding v e by (simp add: testEdge_def)
  show ?thesis
    using dupGraph_layout m a r n by simp
qed

section \<open>Properties of the lane optimization\<close>

definition mergeSwapped :: "(int, int) jsmap" where
  "mergeSwapped = [(0, 0), (1, 2), (2, 1), (3, 3)]"

lemma upt3: "[0..<3] = [0, 1, 2]" "[0..<4] = [0, 1, 2, 3]"
  by (simp_all add: upt_rec)

lemma mergeLayout_crossings: "countCrossings (edges mergeLayout) = 2"
  by (simp add: mergeLayout_def edgesCross_def)

lemma mergeLayout_pass1:
  "swapPass (edges mergeLayout) 2 [0, 1, 2] ([(0, 0), (1, 1), (2, 2), (3, 3)], False) =
     (mergeSwapped, True)"
  by (simp add: mergeLayout_def mergeSwapped_def remapEdgeLanes_def remapLane_def
        edgesCross_def Let_def)

lemma mergeLayout_pass2:
  "swapPass (edges mergeLayout) 2 [0, 1, 2] (mergeSwapped, False) = (mergeSwapped, False)"
  by (simp add: mergeLayout_def mergeSwapped_def remapEdgeLanes_def remapLane_def
        edgesCross_def Let_def)

lemma mergeLayout_loop:
  "optimizeLoop (edges mergeLayout) 2 [0, 1, 2] [(0, 0), (1, 1), (2, 2), (3, 3)] = Some mergeSwapped"
proof -
  have "optimizeLoop (edges mergeLayout) 2 [0, 1, 2] [(0, 0), (1, 1), (2, 2), (3, 3)] =
        optimizeLoop (edges mergeLayout) 2 [0, 1, 2] mergeSwapped"
    by (subst optimizeLoop.simps) (simp only: mergeLayout_pass1 prod.case if_True)
  also have "\<dots> = Some mergeSwapped"
    by (subst optimizeLoop.simps) (simp only: mergeLayout_pass2 prod.case if_False)
  finally show ?thesis .
qed

text \<open>
  The layout of the octopus history has two crossings. The first run swaps lanes 1 and 2 and
  stops with one crossing left; run on that output, the optimizer starts from its crossing
  count 1 and swaps lanes 0 and 1.
\<close>

definition mergeOptimized :: VisualGraph where
  "mergeOptimized =
     testLayout
       [testVisualCommit ''5'' (0, 0) True False False
          [testEdgeId ''5'' ''1'' 0, testEdgeId ''5'' ''4'' 1, testEdgeId ''5'' ''2'' 2],
        testVisualCommit ''4'' (1, 2) True False False
          [testEdgeId ''4'' ''0'' 0, testEdgeId ''4'' ''1'' 1],
        testVisualCommit ''3'' (2, 3) False False False [testEdgeId ''3'' ''0'' 0],
        testVisualCommit ''2'' (3, 1) False True False [],
        testVisualCommit ''1'' (4, 0) False True False [],
        testVisualCommit ''0'' (5, 2) False True False []]
       [testEdge ''5'' ''1'' 0 (0, 0) (4, 0) straight,
        testEdge ''5'' ''4'' 1 (0, 0) (1, 2) merge,
        testEdge ''5'' ''2'' 2 (0, 0) (3, 1) merge,
        testEdge ''4'' ''0'' 0 (1, 2) (5, 2) straight,
        testEdge ''4'' ''1'' 1 (1, 2) (4, 0) merge,
        testEdge ''3'' ''0'' 0 (2, 3) (5, 2) fork]
       4 [(0, [0]), (1, [2]), (2, []), (3, []), (4, [0]), (5, [2])]"

definition mergeReswapped :: "(int, int) jsmap" where
  "mergeReswapped = [(0, 1), (1, 0), (2, 2), (3, 3)]"

definition mergeReoptimized :: VisualGraph where
  "mergeReoptimized =
     testLayout
       [testVisualCommit ''5'' (0, 1) True False False
          [testEdgeId ''5'' ''1'' 0, testEdgeId ''5'' ''4'' 1, testEdgeId ''5'' ''2'' 2],
        testVisualCommit ''4'' (1, 2) True False False
          [testEdgeId ''4'' ''0'' 0, testEdgeId ''4'' ''1'' 1],
        testVisualCommit ''3'' (2, 3) False False False [testEdgeId ''3'' ''0'' 0],
        testVisualCommit ''2'' (3, 0) False True False [],
        testVisualCommit ''1'' (4, 1) False True False [],
        testVisualCommit ''0'' (5, 2) False True False []]
       [testEdge ''5'' ''1'' 0 (0, 1) (4, 1) straight,
        testEdge ''5'' ''4'' 1 (0, 1) (1, 2) merge,
        testEdge ''5'' ''2'' 2 (0, 1) (3, 0) merge,
        testEdge ''4'' ''0'' 0 (1, 2) (5, 2) straight,
        testEdge ''4'' ''1'' 1 (1, 2) (4, 1) merge,
        testEdge ''3'' ''0'' 0 (2, 3) (5, 2) fork]
       4 [(0, [1]), (1, [2]), (2, []), (3, []), (4, [1]), (5, [2])]"

lemmas remap_eval =
  applyLaneMapping_def remapEdgeLanes_def remapLane_def Let_def
  testLayout_def testVisualCommit_def testEdge_def testEdgeId_def testHash_def lit_def
  dec.simps digit_def

lemma mergeLayout_applied: "applyLaneMapping mergeLayout mergeSwapped = mergeOptimized"
  by (simp add: mergeLayout_def mergeOptimized_def mergeSwapped_def remap_eval)

lemma mergeLayout_optimized: "optimizeLanes mergeLayout = Some mergeOptimized"
proof -
  have l: "totalLanes mergeLayout = 4" by (simp add: mergeLayout_def)
  have n: "\<not> list_all (\<lambda>(k, v). k = v) mergeSwapped" by (simp add: mergeSwapped_def)
  show ?thesis
    unfolding optimizeLanes_def mergeLayout_crossings l Let_def
    using n by (simp add: upt3 mergeLayout_loop mergeLayout_applied)
qed

lemma mergeOptimized_crossings: "countCrossings (edges mergeOptimized) = 1"
  by (simp add: mergeOptimized_def edgesCross_def)

lemma mergeOptimized_pass1:
  "swapPass (edges mergeOptimized) 1 [0, 1, 2] ([(0, 0), (1, 1), (2, 2), (3, 3)], False) =
     (mergeReswapped, True)"
  by (simp add: mergeOptimized_def mergeReswapped_def remapEdgeLanes_def remapLane_def
        edgesCross_def Let_def)

lemma mergeOptimized_pass2:
  "swapPass (edges mergeOptimized) 1 [0, 1, 2] (mergeReswapped, False) = (mergeReswapped, False)"
  by (simp add: mergeOptimized_def mergeReswapped_def remapEdgeLanes_def remapLane_def
        edgesCross_def Let_def)

lemma mergeOptimized_loop:
  "optimizeLoop (edges mergeOptimized) 1 [0, 1, 2] [(0, 0), (1, 1), (2, 2), (3, 3)] =
     Some mergeReswapped"
proof -
  have "optimizeLoop (edges mergeOptimized) 1 [0, 1, 2] [(0, 0), (1, 1), (2, 2), (3, 3)] =
        optimizeLoop (edges mergeOptimized) 1 [0, 1, 2] mergeReswapped"
    by (subst optimizeLoop.simps) (simp only: mergeOptimized_pass1 prod.case if_True)
  also have "\<dots> = Some mergeReswapped"
    by (subst optimizeLoop.simps) (simp only: mergeOptimized_pass2 prod.case if_False)
  finally show ?thesis .
qed

lemma mergeOptimized_applied: "applyLaneMapping mergeOptimized mergeReswapped = mergeReoptimized"
  by (simp add: mergeOptimized_def mergeReoptimized_def mergeReswapped_def remap_eval)

lemma mergeOptimized_optimized: "optimizeLanes mergeOptimized = Some mergeReoptimized"
proof -
  have l: "totalLanes mergeOptimized = 4" by (simp add: mergeOptimized_def)
  have n: "\<not> list_all (\<lambda>(k, v). k = v) mergeReswapped" by (simp add: mergeReswapped_def)
  show ?thesis
    unfolding optimizeLanes_def mergeOptimized_crossings l Let_def
    using n mergeOptimized_loop by (simp add: upt3 mergeOptimized_applied)
qed

lemma mergeReoptimized_crossings: "countCrossings (edges mergeReoptimized) = 0"
  by (simp add: mergeReoptimized_def edgesCross_def)

text \<open>
  Claim C6 as stated fails: the output of \<^verbatim>\<open>optimizeLanes\<close> on the layout of the octopus history is
  not a fixed point; a second run moves the commits to other lanes.
\<close>

theorem optimizeLanes_rerun_counterexample:
  "createVisualGraph mergeGraph noOptions = Inr mergeLayout \<and>
   optimizeLanes mergeLayout = Some mergeOptimized \<and>
   optimizeLanes mergeOptimized = Some mergeReoptimized \<and>
   map lane (commits mergeOptimized) = [0, 2, 3, 1, 0, 2] \<and>
   map lane (commits mergeReoptimized) = [1, 2, 3, 0, 1, 2] \<and>
   optimizeLanes mergeOptimized \<noteq> Some mergeOptimized"
proof -
  have a: "map lane (commits mergeOptimized) = [0, 2, 3, 1, 0, 2]"
    by (simp add: mergeOptimized_def)
  have b: "map lane (commits mergeReoptimized) = [1, 2, 3, 0, 1, 2]"
    by (simp add: mergeReoptimized_def)
  from a b have "mergeReoptimized \<noteq> mergeOptimized" by auto
  then show ?thesis
    using mergeGraph_layout mergeLayout_optimized mergeOptimized_optimized a b by simp
qed

subsection \<open>Fixed points\<close>

text \<open>
  The mapping the loop starts from, and the first mapping it tries for a lane \<open>l\<close>: the
  identity with the lanes \<open>l\<close> and \<open>l + 1\<close> exchanged.
\<close>

definition identityMapping :: "int \<Rightarrow> (int, int) jsmap" where
  "identityMapping n = map (\<lambda>i. (int i, int i)) [0 ..< nat n]"

definition adjacentSwap :: "VisualGraph \<Rightarrow> int \<Rightarrow> (int, int) jsmap" where
  "adjacentSwap g l =
     AList.update (l + 1) l (AList.update l (l + 1) (identityMapping (totalLanes g)))"

text \<open>
  The test that accepts a swap: the edges under the mapping have fewer crossings than \<open>c\<close>,
  the count of the input graph.
\<close>

definition reduces :: "VisualEdge list \<Rightarrow> nat \<Rightarrow> (int, int) jsmap \<Rightarrow> bool" where
  "reduces es c m \<longleftrightarrow> countCrossings (remapEdgeLanes es m) < c"

lemma map_of_identity_upt:
  "map_of (map (\<lambda>i. (int i, int i)) [0 ..< k]) l = (if 0 \<le> l \<and> l < int k then Some l else None)"
  by (induction k) (auto simp: map_of_append map_add_def split: option.splits)

lemma map_of_identityMapping:
  "0 \<le> l \<Longrightarrow> l < n \<Longrightarrow> map_of (identityMapping n) l = Some l"
  by (simp add: identityMapping_def map_of_identity_upt)

lemma set_lanes: "set (map int [0 ..< nat n]) = {0 ..< n}"
proof
  show "set (map int [0 ..< nat n]) \<subseteq> {0 ..< n}" by auto
  show "{0 ..< n} \<subseteq> set (map int [0 ..< nat n])"
  proof
    fix l assume "l \<in> {0 ..< n}"
    then have "nat l \<in> set [0 ..< nat n]" "int (nat l) = l" by auto
    then show "l \<in> set (map int [0 ..< nat n])" by (metis image_eqI set_map)
  qed
qed

text \<open>A pass in which every trial is rejected leaves the mapping and the flag as they were.\<close>

lemma swapPass_rejects:
  assumes "\<forall>l\<in>set ls. \<forall>a b. map_of m l = Some a \<longrightarrow> map_of m (l + 1) = Some b \<longrightarrow>
             \<not> reduces es c (AList.update (l + 1) a (AList.update l b m))"
  shows "swapPass es c ls (m, i) = (m, i)"
  using assms
  by (induction ls) (auto simp: Let_def reduces_def split: option.splits)

lemma swapPass_flag_stays: "snd (swapPass es c ls (m, True)) = True"
  by (induction ls arbitrary: m) (auto simp: Let_def split: option.splits)

text \<open>A pass that ends with the flag unset has rejected every trial.\<close>

lemma swapPass_unchanged:
  assumes "swapPass es c ls (m, False) = (m', False)"
  shows "m' = m \<and>
         (\<forall>l\<in>set ls. \<forall>a b. map_of m l = Some a \<longrightarrow> map_of m (l + 1) = Some b \<longrightarrow>
             \<not> reduces es c (AList.update (l + 1) a (AList.update l b m)))"
  using assms
proof (induction ls)
  case Nil
  then show ?case by simp
next
  case (Cons l ls)
  show ?case
  proof (cases "\<exists>a b. map_of m l = Some a \<and> map_of m (l + 1) = Some b \<and>
                  reduces es c (AList.update (l + 1) a (AList.update l b m))")
    case True
    then obtain a b where ab: "map_of m l = Some a" "map_of m (l + 1) = Some b"
      "reduces es c (AList.update (l + 1) a (AList.update l b m))" by blast
    then have "swapPass es c (l # ls) (m, False) =
               swapPass es c ls (AList.update (l + 1) a (AList.update l b m), True)"
      by (simp add: Let_def reduces_def)
    with Cons.prems
    have "swapPass es c ls (AList.update (l + 1) a (AList.update l b m), True) = (m', False)"
      by (simp only:)
    then have "snd (swapPass es c ls (AList.update (l + 1) a (AList.update l b m), True)) = False"
      by simp
    with swapPass_flag_stays[of es c ls "AList.update (l + 1) a (AList.update l b m)"]
    show ?thesis by simp
  next
    case False
    then have "swapPass es c (l # ls) (m, False) = swapPass es c ls (m, False)"
      by (auto simp: Let_def reduces_def split: option.splits)
    with Cons.prems Cons.IH False show ?thesis by auto
  qed
qed

text \<open>
  Once the mapping reduces the crossings it does so after every later pass, and a pass that
  sets the flag ends with such a mapping; so does every run of the loop that returns.
\<close>

lemma swapPass_keeps:
  "reduces es c (fst acc) \<Longrightarrow> reduces es c (fst (swapPass es c ls acc))"
proof (induction ls arbitrary: acc)
  case Nil
  then show ?case by simp
next
  case (Cons l ls)
  obtain m i where acc: "acc = (m, i)" by (cases acc)
  have m: "reduces es c m" using Cons.prems by (simp add: acc)
  have keep: "reduces es c (fst (swapPass es c ls (m, i)))"
    using Cons.IH[of "(m, i)"] m by simp
  have swap: "reduces es c (fst (swapPass es c ls (AList.update (l + 1) a (AList.update l b m), True)))"
    if "countCrossings (remapEdgeLanes es (AList.update (l + 1) a (AList.update l b m))) < c"
    for a b
    using Cons.IH[of "(AList.update (l + 1) a (AList.update l b m), True)"] that
    by (simp add: reduces_def)
  show ?case
    unfolding acc using keep swap
    by (simp add: Let_def split: option.splits)
qed

lemma swapPass_improved:
  "snd (swapPass es c ls (m, False)) \<Longrightarrow> reduces es c (fst (swapPass es c ls (m, False)))"
proof (induction ls)
  case Nil
  then show ?case by simp
next
  case (Cons l ls)
  show ?case
  proof (cases "\<exists>a b. map_of m l = Some a \<and> map_of m (l + 1) = Some b \<and>
                  reduces es c (AList.update (l + 1) a (AList.update l b m))")
    case True
    then obtain a b where ab: "map_of m l = Some a" "map_of m (l + 1) = Some b"
      "reduces es c (AList.update (l + 1) a (AList.update l b m))" by blast
    then have "swapPass es c (l # ls) (m, False) =
               swapPass es c ls (AList.update (l + 1) a (AList.update l b m), True)"
      by (simp add: Let_def reduces_def)
    with swapPass_keeps[of es c "(AList.update (l + 1) a (AList.update l b m), True)" ls] ab(3)
    show ?thesis by simp
  next
    case False
    then have "swapPass es c (l # ls) (m, False) = swapPass es c ls (m, False)"
      by (auto simp: Let_def reduces_def split: option.splits)
    with Cons show ?thesis by simp
  qed
qed

lemma optimizeLoop_reduces:
  assumes "optimizeLoop es c ls m = Some m'"
  shows "reduces es c m \<longrightarrow> reduces es c m'"
proof (rule optimizeLoop.raw_induct[where P = "\<lambda>es c ls m m'. reduces es c m \<longrightarrow> reduces es c m'"
      and es = es and crossings = c and ls = ls and laneMapping = m and y = m'])
  show "optimizeLoop es c ls m = Some m'" by fact
next
  fix f :: "VisualEdge list \<Rightarrow> nat \<Rightarrow> int list \<Rightarrow> (int, int) jsmap \<Rightarrow> (int, int) jsmap option"
  fix es c ls m m'
  assume IH: "\<And>es c ls m y. f es c ls m = Some y \<Longrightarrow> reduces es c m \<longrightarrow> reduces es c y"
    and eq: "(case swapPass es c ls (m, False) of
               (m1, i) \<Rightarrow> if i then f es c ls m1 else Some m1) = Some m'"
  obtain m1 i where p: "swapPass es c ls (m, False) = (m1, i)"
    by (cases "swapPass es c ls (m, False)")
  show "reduces es c m \<longrightarrow> reduces es c m'"
  proof
    assume "reduces es c m"
    then have inv: "reduces es c m1"
      using swapPass_keeps[of es c "(m, False)" ls] by (simp add: p)
    show "reduces es c m'"
    proof (cases i)
      case True
      with eq p have "f es c ls m1 = Some m'" by simp
      from IH[OF this] inv show ?thesis by simp
    next
      case False
      with eq p have "m' = m1" by simp
      with inv show ?thesis by simp
    qed
  qed
qed

lemma remapLane_identity: "list_all (\<lambda>(k, v). k = v) m \<Longrightarrow> remapLane m l = l"
  by (auto simp: remapLane_def list_all_iff split: option.splits dest!: map_of_SomeD)

lemma remapEdgeLanes_identity: "list_all (\<lambda>(k, v). k = v) m \<Longrightarrow> remapEdgeLanes es m = es"
  by (simp add: remapEdgeLanes_def remapLane_identity map_idI)

lemma edges_applyLaneMapping: "edges (applyLaneMapping g m) = remapEdgeLanes (edges g) m"
  by (simp add: applyLaneMapping_def Let_def)

text \<open>
  Claim C6, as the code has it. The output of a run need not be a fixed point.
  \<^verbatim>\<open>optimizeLanes\<close> returns a graph unchanged exactly when the graph has no crossings or no
  exchange of two adjacent lanes has fewer crossings than the graph has; so a second run
  returns the output of the first unchanged exactly when that output is such a graph.
\<close>

theorem optimizeLanes_fixed_point:
  "optimizeLanes g = Some g \<longleftrightarrow>
     countCrossings (edges g) = 0 \<or>
     (\<forall>l\<in>{0 ..< totalLanes g - 1}.
        countCrossings (edges g) \<le> countCrossings (remapEdgeLanes (edges g) (adjacentSwap g l)))"
proof (cases "countCrossings (edges g) = 0")
  case True
  then show ?thesis by (simp add: optimizeLanes_def)
next
  case False
  define c where "c = countCrossings (edges g)"
  define ls where "ls = map int [0 ..< nat (totalLanes g - 1)]"
  define m0 where "m0 = identityMapping (totalLanes g)"
  have opt: "optimizeLanes g =
     (case optimizeLoop (edges g) c ls m0 of
        None \<Rightarrow> None
      | Some m \<Rightarrow> if list_all (\<lambda>(k, v). k = v) m then Some g else Some (applyLaneMapping g m))"
    using False by (simp add: optimizeLanes_def c_def ls_def m0_def identityMapping_def Let_def)
  have id0: "list_all (\<lambda>(k, v). k = v) m0"
    by (simp add: m0_def identityMapping_def list_all_iff)
  have lanes: "set ls = {0 ..< totalLanes g - 1}"
    unfolding ls_def by (rule set_lanes)
  have look: "map_of m0 l = Some l" "map_of m0 (l + 1) = Some (l + 1)" if "l \<in> set ls" for l
    using that unfolding lanes m0_def by (simp_all add: map_of_identityMapping)
  have swap: "adjacentSwap g l = AList.update (l + 1) l (AList.update l (l + 1) m0)" for l
    by (simp add: adjacentSwap_def m0_def)
  have rhs: "(\<forall>l\<in>{0 ..< totalLanes g - 1}.
        countCrossings (edges g) \<le> countCrossings (remapEdgeLanes (edges g) (adjacentSwap g l))) \<longleftrightarrow>
      (\<forall>l\<in>set ls. \<forall>a b. map_of m0 l = Some a \<longrightarrow> map_of m0 (l + 1) = Some b \<longrightarrow>
             \<not> reduces (edges g) c (AList.update (l + 1) a (AList.update l b m0)))"
    unfolding lanes[symmetric] swap reduces_def c_def using look by (auto simp: not_less)
  obtain m1 i where p: "swapPass (edges g) c ls (m0, False) = (m1, i)"
    by (cases "swapPass (edges g) c ls (m0, False)")
  have loop: "optimizeLoop (edges g) c ls m0 =
                (if i then optimizeLoop (edges g) c ls m1 else Some m1)"
    by (subst optimizeLoop.simps) (simp add: p)
  show ?thesis
  proof (cases i)
    case no: False
    from swapPass_unchanged[of "edges g" c ls m0 m1] p no
    have m1: "m1 = m0" and rej: "\<forall>l\<in>set ls. \<forall>a b. map_of m0 l = Some a \<longrightarrow>
        map_of m0 (l + 1) = Some b \<longrightarrow>
        \<not> reduces (edges g) c (AList.update (l + 1) a (AList.update l b m0))"
      by simp_all
    have "optimizeLanes g = Some g"
      unfolding opt loop using no m1 id0 by simp
    with rej rhs show ?thesis by simp
  next
    case yes: True
    have r1: "reduces (edges g) c m1"
      using swapPass_improved[of "edges g" c ls m0] p yes by simp
    have "optimizeLanes g \<noteq> Some g"
    proof (cases "optimizeLoop (edges g) c ls m1")
      case None
      then show ?thesis unfolding opt loop using yes by simp
    next
      case (Some m)
      with optimizeLoop_reduces[OF Some] r1 have r: "reduces (edges g) c m" by simp
      have n: "\<not> list_all (\<lambda>(k, v). k = v) m"
        using r remapEdgeLanes_identity[of m "edges g"] by (auto simp: reduces_def c_def)
      have "applyLaneMapping g m \<noteq> g"
      proof
        assume "applyLaneMapping g m = g"
        then have "edges (applyLaneMapping g m) = edges g" by simp
        with r show False by (simp add: edges_applyLaneMapping reduces_def c_def)
      qed
      then show ?thesis unfolding opt loop using yes Some n by simp
    qed
    moreover have "\<not> (\<forall>l\<in>set ls. \<forall>a b. map_of m0 l = Some a \<longrightarrow>
        map_of m0 (l + 1) = Some b \<longrightarrow>
        \<not> reduces (edges g) c (AList.update (l + 1) a (AList.update l b m0)))"
    proof
      assume "\<forall>l\<in>set ls. \<forall>a b. map_of m0 l = Some a \<longrightarrow>
        map_of m0 (l + 1) = Some b \<longrightarrow>
        \<not> reduces (edges g) c (AList.update (l + 1) a (AList.update l b m0))"
      from swapPass_rejects[OF this, of False] p yes show False by simp
    qed
    ultimately show ?thesis using rhs False by simp
  qed
qed

text \<open>
  Three roots \<open>0\<close>, \<open>1\<close>, \<open>2\<close>, a merge \<open>3\<close> of \<open>0\<close> and \<open>1\<close>, and an octopus merge \<open>4\<close> of \<open>2\<close>,
  \<open>0\<close> and \<open>1\<close>. The layout has one crossing, and so has each exchange of two adjacent lanes.
\<close>

definition stableGraph :: RepositoryGraph where
  "stableGraph =
     buildGraph [testCommit ''0'' [], testCommit ''1'' [], testCommit ''2'' [],
                 testCommit ''3'' [''0'', ''1''], testCommit ''4'' [''2'', ''0'', ''1'']]
       [] None None"

definition stableLayout :: VisualGraph where
  "stableLayout =
     testLayout
       [testVisualCommit ''4'' (0, 0) True False False
          [testEdgeId ''4'' ''2'' 0, testEdgeId ''4'' ''0'' 1, testEdgeId ''4'' ''1'' 2],
        testVisualCommit ''3'' (1, 3) True False False
          [testEdgeId ''3'' ''0'' 0, testEdgeId ''3'' ''1'' 1],
        testVisualCommit ''2'' (2, 0) False True False [],
        testVisualCommit ''1'' (3, 2) False True False [],
        testVisualCommit ''0'' (4, 1) False True False []]
       [testEdge ''4'' ''2'' 0 (0, 0) (2, 0) straight,
        testEdge ''4'' ''0'' 1 (0, 0) (4, 1) merge,
        testEdge ''4'' ''1'' 2 (0, 0) (3, 2) merge,
        testEdge ''3'' ''0'' 0 (1, 3) (4, 1) fork,
        testEdge ''3'' ''1'' 1 (1, 3) (3, 2) merge]
       4 [(0, [0]), (1, []), (2, [0]), (3, []), (4, [])]"

lemma stableGraph_layout: "createVisualGraph stableGraph noOptions = Inr stableLayout"
  by (simp add: stableGraph_def stableLayout_def layout_eval)

lemma stableLayout_crossings: "countCrossings (edges stableLayout) = 1"
  by (simp add: stableLayout_def edgesCross_def)

lemma stableLayout_swaps:
  "countCrossings (remapEdgeLanes (edges stableLayout) (adjacentSwap stableLayout 0)) = 1"
  "countCrossings (remapEdgeLanes (edges stableLayout) (adjacentSwap stableLayout 1)) = 1"
  "countCrossings (remapEdgeLanes (edges stableLayout) (adjacentSwap stableLayout 2)) = 1"
  by (simp_all add: stableLayout_def adjacentSwap_def identityMapping_def upt3
        remapEdgeLanes_def remapLane_def edgesCross_def)

text \<open>
  The theorem on two layouts: the layout above is returned unchanged with its crossing; the
  output of the first run on the octopus history is not, as exchanging its lanes 0 and 1
  removes its crossing.
\<close>

theorem optimizeLanes_fixed_point_witness:
  "createVisualGraph stableGraph noOptions = Inr stableLayout \<and>
   countCrossings (edges stableLayout) = 1 \<and>
   totalLanes stableLayout = 4 \<and>
   countCrossings (remapEdgeLanes (edges stableLayout) (adjacentSwap stableLayout 0)) = 1 \<and>
   countCrossings (remapEdgeLanes (edges stableLayout) (adjacentSwap stableLayout 1)) = 1 \<and>
   countCrossings (remapEdgeLanes (edges stableLayout) (adjacentSwap stableLayout 2)) = 1 \<and>
   optimizeLanes stableLayout = Some stableLayout \<and>
   countCrossings (edges mergeOptimized) = 1 \<and>
   countCrossings (remapEdgeLanes (edges mergeOptimized) (adjacentSwap mergeOptimized 0)) = 0 \<and>
   optimizeLanes mergeOptimized \<noteq> Some mergeOptimized"
proof -
  have l: "totalLanes stableLayout = 4" by (simp add: stableLayout_def)
  have "countCrossings (edges stableLayout) \<le>
        countCrossings (remapEdgeLanes (edges stableLayout) (adjacentSwap stableLayout l))"
    if "l \<in> {0 ..< totalLanes stableLayout - 1}" for l
  proof -
    from that have "l = 0 \<or> l = 1 \<or> l = 2" unfolding l by auto
    then show ?thesis using stableLayout_swaps stableLayout_crossings by auto
  qed
  then have "\<forall>l\<in>{0 ..< totalLanes stableLayout - 1}.
      countCrossings (edges stableLayout) \<le>
      countCrossings (remapEdgeLanes (edges stableLayout) (adjacentSwap stableLayout l))"
    by blast
  with optimizeLanes_fixed_point[of stableLayout]
  have s: "optimizeLanes stableLayout = Some stableLayout" by simp
  have l': "totalLanes mergeOptimized = 4" by (simp add: mergeOptimized_def)
  have z: "countCrossings (remapEdgeLanes (edges mergeOptimized) (adjacentSwap mergeOptimized 0)) = 0"
    by (simp add: mergeOptimized_def adjacentSwap_def identityMapping_def upt3
        remapEdgeLanes_def remapLane_def edgesCross_def)
  have "\<not> (\<forall>l\<in>{0 ..< totalLanes mergeOptimized - 1}.
      countCrossings (edges mergeOptimized) \<le>
      countCrossings (remapEdgeLanes (edges mergeOptimized) (adjacentSwap mergeOptimized l)))"
    unfolding l' using z mergeOptimized_crossings
    by (auto intro!: bexI[of _ 0])
  with optimizeLanes_fixed_point[of mergeOptimized] mergeOptimized_crossings
  have n: "optimizeLanes mergeOptimized \<noteq> Some mergeOptimized" by simp
  show ?thesis
    using stableGraph_layout stableLayout_crossings l stableLayout_swaps s
      mergeOptimized_crossings z n by simp
qed


subsection \<open>A run that does not end\<close>

text \<open>
  Two roots \<open>0\<close> and \<open>1\<close>, a child \<open>2\<close> of \<open>0\<close> and a merge \<open>3\<close> of \<open>0\<close> and \<open>1\<close>. The layout has
  one crossing, and two different lane mappings remove it. Every pass of the loop compares
  with the count of the input, so each pass turns one of the two mappings into the other and
  sets \<^verbatim>\<open>improved\<close> again: the loop has no result.
\<close>

definition cycleGraph :: RepositoryGraph where
  "cycleGraph =
     buildGraph [testCommit ''0'' [], testCommit ''1'' [], testCommit ''2'' [''0''],
                 testCommit ''3'' [''0'', ''1'']]
       [] None None"

definition cycleLayout :: VisualGraph where
  "cycleLayout =
     testLayout
       [testVisualCommit ''3'' (0, 0) True False False
          [testEdgeId ''3'' ''0'' 0, testEdgeId ''3'' ''1'' 1],
        testVisualCommit ''2'' (1, 2) False False False [testEdgeId ''2'' ''0'' 0],
        testVisualCommit ''1'' (2, 1) False True False [],
        testVisualCommit ''0'' (3, 0) False True False []]
       [testEdge ''3'' ''0'' 0 (0, 0) (3, 0) straight,
        testEdge ''3'' ''1'' 1 (0, 0) (2, 1) merge,
        testEdge ''2'' ''0'' 0 (1, 2) (3, 0) fork]
       3 [(0, [0]), (1, []), (2, []), (3, [0])]"

lemma cycleGraph_layout: "createVisualGraph cycleGraph noOptions = Inr cycleLayout"
  by (simp add: cycleGraph_def cycleLayout_def layout_eval)

lemma cycleLayout_crossings: "countCrossings (edges cycleLayout) = 1"
  by (simp add: cycleLayout_def edgesCross_def)

lemma cycleLayout_pass:
  "swapPass (edges cycleLayout) 1 [0, 1] ([(0, 0), (1, 1), (2, 2)], False) =
     ([(0, 1), (1, 2), (2, 0)], True)"
  "swapPass (edges cycleLayout) 1 [0, 1] ([(0, 1), (1, 2), (2, 0)], False) =
     ([(0, 1), (1, 0), (2, 2)], True)"
  "swapPass (edges cycleLayout) 1 [0, 1] ([(0, 1), (1, 0), (2, 2)], False) =
     ([(0, 1), (1, 2), (2, 0)], True)"
  by (simp_all add: cycleLayout_def remapEdgeLanes_def remapLane_def edgesCross_def Let_def)

text \<open>No run of the loop from one of the three mappings below returns.\<close>

lemma cycleLayout_loop:
  assumes "optimizeLoop es c ls m = Some m'"
  shows "\<not> (es = edges cycleLayout \<and> c = 1 \<and> ls = [0, 1] \<and>
            m \<in> {[(0, 0), (1, 1), (2, 2)], [(0, 1), (1, 2), (2, 0)], [(0, 1), (1, 0), (2, 2)]})"
proof (rule optimizeLoop.raw_induct[where
      P = "\<lambda>es c ls m m'. \<not> (es = edges cycleLayout \<and> c = 1 \<and> ls = [0, 1] \<and>
            m \<in> {[(0, 0), (1, 1), (2, 2)], [(0, 1), (1, 2), (2, 0)], [(0, 1), (1, 0), (2, 2)]})"
      and es = es and crossings = c and ls = ls and laneMapping = m and y = m'])
  show "optimizeLoop es c ls m = Some m'" by fact
next
  fix f :: "VisualEdge list \<Rightarrow> nat \<Rightarrow> int list \<Rightarrow> (int, int) jsmap \<Rightarrow> (int, int) jsmap option"
  fix es c ls m m'
  assume IH: "\<And>es c ls m y. f es c ls m = Some y \<Longrightarrow>
      \<not> (es = edges cycleLayout \<and> c = 1 \<and> ls = [0, 1] \<and>
            m \<in> {[(0, 0), (1, 1), (2, 2)], [(0, 1), (1, 2), (2, 0)], [(0, 1), (1, 0), (2, 2)]})"
    and eq: "(case swapPass es c ls (m, False) of
               (m1, i) \<Rightarrow> if i then f es c ls m1 else Some m1) = Some m'"
  show "\<not> (es = edges cycleLayout \<and> c = 1 \<and> ls = [0, 1] \<and>
            m \<in> {[(0, 0), (1, 1), (2, 2)], [(0, 1), (1, 2), (2, 0)], [(0, 1), (1, 0), (2, 2)]})"
  proof
    assume a: "es = edges cycleLayout \<and> c = 1 \<and> ls = [0, 1] \<and>
            m \<in> {[(0, 0), (1, 1), (2, 2)], [(0, 1), (1, 2), (2, 0)], [(0, 1), (1, 0), (2, 2)]}"
    then consider "m = [(0, 0), (1, 1), (2, 2)]" | "m = [(0, 1), (1, 2), (2, 0)]"
      | "m = [(0, 1), (1, 0), (2, 2)]" by blast
    then show False
    proof cases
      case 1
      with a eq have "f (edges cycleLayout) 1 [0, 1] [(0, 1), (1, 2), (2, 0)] = Some m'"
        by (simp only: cycleLayout_pass prod.case if_True)
      from IH[OF this] show False by simp
    next
      case 2
      with a eq have "f (edges cycleLayout) 1 [0, 1] [(0, 1), (1, 0), (2, 2)] = Some m'"
        by (simp only: cycleLayout_pass prod.case if_True)
      from IH[OF this] show False by simp
    next
      case 3
      with a eq have "f (edges cycleLayout) 1 [0, 1] [(0, 1), (1, 2), (2, 0)] = Some m'"
        by (simp only: cycleLayout_pass prod.case if_True)
      from IH[OF this] show False by simp
    qed
  qed
qed

lemma optimizeLanes_cycle:
  "createVisualGraph cycleGraph noOptions = Inr cycleLayout \<and> optimizeLanes cycleLayout = None"
proof -
  have l: "totalLanes cycleLayout = 3" by (simp add: cycleLayout_def)
  have u: "[0..<2] = [0, 1]" "[0..<3] = [0, 1, 2]" by (simp_all add: upt_rec)
  have "optimizeLoop (edges cycleLayout) 1 [0, 1] [(0, 0), (1, 1), (2, 2)] = None"
    using cycleLayout_loop[of "edges cycleLayout" 1 "[0, 1]" "[(0, 0), (1, 1), (2, 2)]"]
    by (cases "optimizeLoop (edges cycleLayout) 1 [0, 1] [(0, 0), (1, 1), (2, 2)]") simp_all
  then have "optimizeLanes cycleLayout = None"
    unfolding optimizeLanes_def cycleLayout_crossings l Let_def
    by (simp add: u)
  with cycleGraph_layout show ?thesis by simp
qed

end
